theory Spec2Isabelle
  imports Main
begin

section \<open>The heap of PredictedProcess.ts\<close>

text \<open>
  \<^verbatim>\<open>src/src/PredictedProcess.ts\<close> defines one class, \<^verbatim>\<open>PredictedProcess\<close>, whose method
  \<^verbatim>\<open>run\<close> is an \<^verbatim>\<open>async\<close> function working on four kinds of shared, mutable objects:
  the \<^verbatim>\<open>PredictedProcess\<close> instances themselves, the \<^verbatim>\<open>ChildProcess\<close> objects returned by
  \<^verbatim>\<open>spawn\<close>, the promises created by \<^verbatim>\<open>new Promise\<close>, and the \<^verbatim>\<open>AbortSignal\<close>s handed in by
  callers. Every object lives in a table of the state and is referred to by its index there;
  an object is never removed, so a reference handed out once stays valid. The functions
  below are applied to references of existing objects only: \<open>step\<close> ignores an event that
  names an object that does not exist, and the references that the state itself stores
  stay within the tables (\<open>wf_reachable\<close>).
\<close>

type_synonym unit_ref = nat
type_synonym proc_ref = nat
type_synonym promise_ref = nat
type_synonym signal_ref = nat
type_synonym call_ref = nat

text \<open>A promise is pending, resolved, or rejected with an \<^verbatim>\<open>Error\<close> (its message).\<close>

datatype promise_state = Pending | Fulfilled | Rejected string

text \<open>
  The fields of a \<^verbatim>\<open>PredictedProcess\<close> (lines 4 to 10). \<^verbatim>\<open>null\<close> is \<open>None\<close>.
  The field \<^verbatim>\<open>id\<close> is named \<open>id_pp\<close> here.
\<close>

record predicted_process =
  id_pp :: int
  command :: string
  childProcess :: "proc_ref option"
  memoizedResult :: "promise_ref option"

text \<open>
  The listeners that \<^verbatim>\<open>run\<close> attaches to a child process are closures; each captures
  \<^verbatim>\<open>this\<close> and the \<^verbatim>\<open>resolve\<close>/\<^verbatim>\<open>reject\<close> pair of the promise under construction.
  \<open>OnError u p\<close> is \<^verbatim>\<open>handleError\<close> registered for \<^verbatim>\<open>'error'\<close> (line 59),
  \<open>OnClose u p\<close> the arrow function registered for \<^verbatim>\<open>'close'\<close> (lines 61 to 69).
\<close>

datatype proc_listener = OnError unit_ref promise_ref | OnClose unit_ref promise_ref

text \<open>
  A child process: the command it was spawned with, its listeners in registration order,
  and how many times \<^verbatim>\<open>kill()\<close> has been called on it.
\<close>

record child_process =
  cmd :: string
  listeners :: "proc_listener list"
  kills :: nat

text \<open>
  An abort signal: its \<^verbatim>\<open>aborted\<close> flag and its \<^verbatim>\<open>'abort'\<close> listeners. The only listener
  the program registers is the arrow function of lines 71 to 73, which captures
  \<^verbatim>\<open>this\<close> and \<^verbatim>\<open>reject\<close>.
\<close>

record abort_signal =
  aborted :: bool
  abort_listeners :: "(unit_ref \<times> promise_ref) list"

text \<open>
  One invocation of the async function \<^verbatim>\<open>run\<close>. It is suspended at the \<^verbatim>\<open>await\<close> of
  line 43 (remembering \<^verbatim>\<open>this\<close>, \<^verbatim>\<open>signal\<close> and the awaited promise), or it has thrown
  (line 38), or it has returned a promise (line 76), whose settlement the promise of the
  invocation then follows.
\<close>

datatype call_state =
    Awaiting unit_ref "signal_ref option" promise_ref
  | Threw string
  | Returned promise_ref

text \<open>
  \<^verbatim>\<open>spawn\<close> of \<^verbatim>\<open>child_process\<close> is not part of this repository. Called with a command
  it returns a \<^verbatim>\<open>ChildProcess\<close>, or it throws at once (Node does so for an empty command,
  and when the host refuses the argument list as too long; failures that Node finds out
  later arrive as an \<^verbatim>\<open>'error'\<close> event). Which of the two happens depends on the host and
  the command only; the state carries it as \<open>spawn_throws\<close>, which no operation changes:
  \<open>None\<close> when \<^verbatim>\<open>spawn\<close> returns, the message of the error when it throws.
\<close>

record state =
  units :: "predicted_process list"
  procs :: "child_process list"
  proms :: "promise_state list"
  sigs :: "abort_signal list"
  calls :: "call_state list"
  microtasks :: "call_ref list"
  spawn_throws :: "string \<Rightarrow> string option"

definition init :: "(string \<Rightarrow> string option) \<Rightarrow> state" where
  "init h = \<lparr>units = [], procs = [], proms = [], sigs = [], calls = [], microtasks = [],
              spawn_throws = h\<rparr>"

section \<open>Promises\<close>

text \<open>
  The invocations suspended on promise \<open>p\<close>, in the order in which they started to wait.
  Each invocation awaits at most once, and does so synchronously when it is called, so this
  is the order of the invocations themselves.
\<close>

definition awaits :: "promise_ref \<Rightarrow> call_state \<Rightarrow> bool" where
  "awaits p c = (case c of Awaiting u sg q \<Rightarrow> q = p | _ \<Rightarrow> False)"

definition waiters :: "promise_ref \<Rightarrow> call_state list \<Rightarrow> call_ref list" where
  "waiters p cs = map fst (filter (\<lambda>ic. awaits p (snd ic)) (enumerate 0 cs))"

text \<open>
  \<^verbatim>\<open>resolve()\<close> and \<^verbatim>\<open>reject(error)\<close>: a pending promise takes the given state and the
  continuations waiting on it are queued as microtasks; a settled promise ignores the call.
\<close>

definition settle :: "promise_ref \<Rightarrow> promise_state \<Rightarrow> state \<Rightarrow> state" where
  "settle p v s =
     (if p < length (proms s) \<and> proms s ! p = Pending
      then s\<lparr>proms := (proms s)[p := v],
             microtasks := microtasks s @ waiters p (calls s)\<rparr>
      else s)"

definition resolve :: "promise_ref \<Rightarrow> state \<Rightarrow> state" where
  "resolve p s = settle p Fulfilled s"

definition reject :: "promise_ref \<Rightarrow> string \<Rightarrow> state \<Rightarrow> state" where
  "reject p err s = settle p (Rejected err) s"

section \<open>The methods of PredictedProcess\<close>

text \<open>The constructor (lines 7 to 10) and the field initialisers (lines 4 and 5).\<close>

definition new_unit :: "int \<Rightarrow> string \<Rightarrow> state \<Rightarrow> state" where
  "new_unit i c s =
     s\<lparr>units := units s @
         [\<lparr>id_pp = i, command = c, childProcess = None, memoizedResult = None\<rparr>]\<rparr>"

text \<open>
  \<^verbatim>\<open>cleanup\<close> (lines 79 to 84): on the child process the unit refers to now,
  \<^verbatim>\<open>removeAllListeners()\<close> and \<^verbatim>\<open>kill()\<close>. The field \<^verbatim>\<open>_childProcess\<close> is not written.
\<close>

definition cleanup :: "unit_ref \<Rightarrow> state \<Rightarrow> state" where
  "cleanup u s =
     (case childProcess (units s ! u) of
        None \<Rightarrow> s
      | Some c \<Rightarrow>
          s\<lparr>procs := (procs s)[c := (procs s ! c)\<lparr>listeners := [],
                                                kills := Suc (kills (procs s ! c))\<rparr>]\<rparr>)"

definition set_memoizedResult :: "unit_ref \<Rightarrow> promise_ref option \<Rightarrow> state \<Rightarrow> state" where
  "set_memoizedResult u r s =
     s\<lparr>units := (units s)[u := (units s ! u)\<lparr>memoizedResult := r\<rparr>]\<rparr>"

text \<open>\<^verbatim>\<open>handleError\<close> (lines 53 to 57), with \<^verbatim>\<open>this\<close> = \<open>u\<close> and \<^verbatim>\<open>reject\<close> that of \<open>p\<close>.\<close>

definition handleError :: "unit_ref \<Rightarrow> promise_ref \<Rightarrow> string \<Rightarrow> state \<Rightarrow> state" where
  "handleError u p err s = reject p err (set_memoizedResult u None (cleanup u s))"

text \<open>
  The template literal of line 67 applied to the \<^verbatim>\<open>code\<close> of a \<^verbatim>\<open>'close'\<close> event, which is
  an integer, or \<^verbatim>\<open>null\<close> when the process was ended by a signal.
\<close>

fun show_nat :: "nat \<Rightarrow> string" where
  "show_nat n =
     (if n < 10 then [char_of (48 + n)]
      else show_nat (n div 10) @ [char_of (48 + n mod 10)])"

definition show_int :: "int \<Rightarrow> string" where
  "show_int i = (if i < 0 then ''-'' @ show_nat (nat (- i)) else show_nat (nat i))"

definition show_code :: "int option \<Rightarrow> string" where
  "show_code code = (case code of None \<Rightarrow> ''null'' | Some i \<Rightarrow> show_int i)"

definition exit_message :: "int option \<Rightarrow> string" where
  "exit_message code = ''Process exited with code '' @ show_code code"

text \<open>The \<^verbatim>\<open>'close'\<close> listener (lines 61 to 69).\<close>

definition onClose :: "unit_ref \<Rightarrow> promise_ref \<Rightarrow> int option \<Rightarrow> state \<Rightarrow> state" where
  "onClose u p code s =
     (let s1 = cleanup u s
      in if code = Some 0 then resolve p s1
         else handleError u p (exit_message code) s1)"

text \<open>
  The executor of lines 50 to 74, from the point where \<^verbatim>\<open>spawn\<close> has returned the child
  process \<open>c\<close> (line 51): it stores \<open>c\<close> in \<^verbatim>\<open>_childProcess\<close>, attaches the two process
  listeners (lines 59 and 61) and, when a signal was passed, the abort listener (line 71).
\<close>

definition executor_spawned ::
  "unit_ref \<Rightarrow> signal_ref option \<Rightarrow> promise_ref \<Rightarrow> state \<Rightarrow> state" where
  "executor_spawned u sg p s =
     (let c = length (procs s);
          s1 = s\<lparr>procs := procs s @
                   [\<lparr>cmd = command (units s ! u),
                     listeners = [OnError u p, OnClose u p],
                     kills = 0\<rparr>],
                 units := (units s)[u := (units s ! u)\<lparr>childProcess := Some c\<rparr>]\<rparr>
      in case sg of
           None \<Rightarrow> s1
         | Some g \<Rightarrow>
             s1\<lparr>sigs := (sigs s1)[g := (sigs s1 ! g)
                   \<lparr>abort_listeners := abort_listeners (sigs s1 ! g) @ [(u, p)]\<rparr>]\<rparr>)"

text \<open>
  The executor. Its first statement calls \<^verbatim>\<open>spawn\<close> (line 51). When \<^verbatim>\<open>spawn\<close> throws,
  the executor ends there with that error (\<open>Inl\<close>): \<^verbatim>\<open>_childProcess\<close> is not assigned, there
  is no process and no listener is attached.
\<close>

definition executor ::
  "unit_ref \<Rightarrow> signal_ref option \<Rightarrow> promise_ref \<Rightarrow> state \<Rightarrow> string + state" where
  "executor u sg p s =
     (case spawn_throws s (command (units s ! u)) of
        Some err \<Rightarrow> Inl err
      | None \<Rightarrow> Inr (executor_spawned u sg p s))"

text \<open>
  Lines 49 to 76, the tail of \<^verbatim>\<open>run\<close>. When the slot is empty, \<^verbatim>\<open>new Promise\<close> allocates
  the promise \<open>p\<close> and runs the executor at once. An error thrown by the executor is
  caught by the constructor, which rejects \<open>p\<close> with it; \<open>p\<close> has just been created, no
  continuation waits on it, and so nothing is queued. In either case the promise is then
  stored in \<^verbatim>\<open>_memoizedResult\<close> (line 50). The function returns the promise that the slot
  holds (line 76).
\<close>

definition run_tail :: "unit_ref \<Rightarrow> signal_ref option \<Rightarrow> state \<Rightarrow> promise_ref \<times> state" where
  "run_tail u sg s =
     (case memoizedResult (units s ! u) of
        Some r \<Rightarrow> (r, s)
      | None \<Rightarrow>
          (let p = length (proms s);
               s1 = (case executor u sg p (s\<lparr>proms := proms s @ [Pending]\<rparr>) of
                       Inl err \<Rightarrow> s\<lparr>proms := proms s @ [Rejected err]\<rparr>
                     | Inr t \<Rightarrow> t)
           in (p, set_memoizedResult u (Some p) s1)))"

definition fired :: "signal_ref option \<Rightarrow> state \<Rightarrow> bool" where
  "fired sg s = (case sg of None \<Rightarrow> False | Some g \<Rightarrow> aborted (sigs s ! g))"

text \<open>
  A call of \<^verbatim>\<open>run\<close> (line 36), up to the point where the async function first gives up
  control. The invocation is entered in \<open>calls\<close> under the next free index.
  With an aborted signal it throws (lines 37 to 39). With a promise in the slot it awaits
  that promise (line 43): it is suspended, and when the promise is settled already its
  continuation is queued as a microtask at once. Otherwise it runs lines 49 to 76.
\<close>

definition run :: "unit_ref \<Rightarrow> signal_ref option \<Rightarrow> state \<Rightarrow> state" where
  "run u sg s =
     (if fired sg s then s\<lparr>calls := calls s @ [Threw ''Signal already aborted'']\<rparr>
      else case memoizedResult (units s ! u) of
        Some q \<Rightarrow>
          s\<lparr>calls := calls s @ [Awaiting u sg q],
            microtasks := microtasks s @
               (if proms s ! q = Pending then [] else [length (calls s)])\<rparr>
      | None \<Rightarrow>
          (let (p, s1) = run_tail u sg s
           in s1\<lparr>calls := calls s1 @ [Returned p]\<rparr>))"

text \<open>
  The continuation of an invocation suspended at line 43: when the awaited promise was
  rejected, the \<^verbatim>\<open>catch\<close> block empties the slot (line 45); then lines 49 to 76 run.
\<close>

definition resume :: "call_ref \<Rightarrow> state \<Rightarrow> state" where
  "resume k s =
     (case calls s ! k of
        Awaiting u sg q \<Rightarrow>
          (let s1 = (case proms s ! q of
                       Rejected e \<Rightarrow> set_memoizedResult u None s
                     | _ \<Rightarrow> s);
               (r, s2) = run_tail u sg s1
           in s2\<lparr>calls := (calls s2)[k := Returned r]\<rparr>)
      | _ \<Rightarrow> s)"

text \<open>\<^verbatim>\<open>memoize\<close> (lines 114 to 118).\<close>

definition memoize :: "unit_ref \<Rightarrow> state \<Rightarrow> state" where
  "memoize u s =
     s\<lparr>units := units s @
         [\<lparr>id_pp = id_pp (units s ! u), command = command (units s ! u),
           childProcess = None, memoizedResult = memoizedResult (units s ! u)\<rparr>]\<rparr>"

section \<open>The event loop\<close>

text \<open>One microtask: the continuation at the head of the queue runs.\<close>

definition tick :: "state \<Rightarrow> state" where
  "tick s = (case microtasks s of [] \<Rightarrow> s | k # ks \<Rightarrow> resume k (s\<lparr>microtasks := ks\<rparr>))"

text \<open>
  The microtask queue is run until it is empty. A continuation of \<^verbatim>\<open>run\<close> settles no
  promise, so it queues nothing, and as many ticks as there are queued microtasks empty
  the queue.
\<close>

definition drain :: "state \<Rightarrow> state" where
  "drain s = (tick ^^ length (microtasks s)) s"

text \<open>
  A child process emits \<^verbatim>\<open>'error'\<close> or \<^verbatim>\<open>'close'\<close>: the listeners registered for that
  event when the emission starts are called in order. With no listener registered the
  state stays as it is (Node reports an \<^verbatim>\<open>'error'\<close> that nobody listens to as an
  uncaught exception of the host program, which is outside this class).
\<close>

definition emit_error :: "proc_ref \<Rightarrow> string \<Rightarrow> state \<Rightarrow> state" where
  "emit_error c err s =
     fold (\<lambda>l. case l of OnError u p \<Rightarrow> handleError u p err | OnClose u p \<Rightarrow> (\<lambda>t. t))
          (listeners (procs s ! c)) s"

definition emit_close :: "proc_ref \<Rightarrow> int option \<Rightarrow> state \<Rightarrow> state" where
  "emit_close c code s =
     fold (\<lambda>l. case l of OnClose u p \<Rightarrow> onClose u p code | OnError u p \<Rightarrow> (\<lambda>t. t))
          (listeners (procs s ! c)) s"

text \<open>
  \<^verbatim>\<open>AbortController.abort()\<close>: a signal fires once; its flag is set and its listeners
  are called in order (lines 71 to 73).
\<close>

abbreviation abort_all :: "string \<Rightarrow> (unit_ref \<times> promise_ref) list \<Rightarrow> state \<Rightarrow> state" where
  "abort_all m ls s \<equiv> fold (\<lambda>(u, p). handleError u p m) ls s"

definition abort :: "signal_ref \<Rightarrow> state \<Rightarrow> state" where
  "abort g s =
     (if aborted (sigs s ! g) then s
      else abort_all ''AbortSignal triggered'' (abort_listeners (sigs s ! g))
             (s\<lparr>sigs := (sigs s)[g := (sigs s ! g)\<lparr>aborted := True\<rparr>]\<rparr>))"

definition new_signal :: "state \<Rightarrow> state" where
  "new_signal s = s\<lparr>sigs := sigs s @ [\<lparr>aborted = False, abort_listeners = []\<rparr>]\<rparr>"

text \<open>
  What the environment can do. Client code constructs units and signals, calls
  \<^verbatim>\<open>run\<close> and \<^verbatim>\<open>memoize\<close>, aborts a signal, or lets one microtask run (\<open>Tick\<close>).
  A process notification arrives in a turn of the event loop of its own: the microtasks
  queued before it have all run, and those it queues run before anything else happens.
  An event that names an object that does not exist is ignored.
\<close>

datatype event =
    New int string
  | NewSignal
  | Run unit_ref "signal_ref option"
  | Memoize unit_ref
  | Abort signal_ref
  | Tick
  | ProcError proc_ref string
  | ProcClose proc_ref "int option"

definition known :: "signal_ref option \<Rightarrow> state \<Rightarrow> bool" where
  "known sg s = (case sg of None \<Rightarrow> True | Some g \<Rightarrow> g < length (sigs s))"

fun step :: "event \<Rightarrow> state \<Rightarrow> state" where
  "step (New i c) s = new_unit i c s"
| "step NewSignal s = new_signal s"
| "step (Run u sg) s = (if u < length (units s) \<and> known sg s then run u sg s else s)"
| "step (Memoize u) s = (if u < length (units s) then memoize u s else s)"
| "step (Abort g) s = (if g < length (sigs s) then abort g s else s)"
| "step Tick s = tick s"
| "step (ProcError c err) s =
     (if c < length (procs s) then drain (emit_error c err (drain s)) else s)"
| "step (ProcClose c code) s =
     (if c < length (procs s) then drain (emit_close c code (drain s)) else s)"

definition exec :: "event list \<Rightarrow> state \<Rightarrow> state" where
  "exec evs s = fold step evs s"

text \<open>What the caller of invocation \<open>k\<close> observes on the promise that \<^verbatim>\<open>run\<close> gave it.\<close>

definition outcome :: "state \<Rightarrow> call_ref \<Rightarrow> promise_state" where
  "outcome s k =
     (case calls s ! k of
        Awaiting u sg q \<Rightarrow> Pending
      | Threw err \<Rightarrow> Rejected err
      | Returned r \<Rightarrow> proms s ! r)"

section \<open>Reachable states\<close>

text \<open>
  The references a state holds point into its tables: the promise in a unit's slot and
  the promise an invocation awaits exist, and so do the units that suspended invocations
  and abort listeners have captured as \<^verbatim>\<open>this\<close>, and the invocations whose
  continuations are queued.
\<close>

definition refs_ok :: "state \<Rightarrow> bool" where
  "refs_ok s =
     (list_all (\<lambda>x. case memoizedResult x of None \<Rightarrow> True | Some p \<Rightarrow> p < length (proms s))
        (units s) \<and>
      list_all (\<lambda>c. case c of
                  Awaiting u sg q \<Rightarrow> u < length (units s) \<and> q < length (proms s)
                | _ \<Rightarrow> True) (calls s) \<and>
      list_all (\<lambda>g. list_all (\<lambda>up. fst up < length (units s)) (abort_listeners g)) (sigs s) \<and>
      list_all (\<lambda>k. k < length (calls s)) (microtasks s))"

text \<open>
  A promise in a slot is pending only if \<^verbatim>\<open>spawn\<close> returns a process for the command of
  the unit: the tail of \<^verbatim>\<open>run\<close> stores a pending promise only when \<^verbatim>\<open>spawn\<close> has just
  done so, and a snapshot has the command of its source.
\<close>

definition spawned_ok :: "state \<Rightarrow> bool" where
  "spawned_ok s =
     list_all (\<lambda>x. case memoizedResult x of
                 None \<Rightarrow> True
               | Some p \<Rightarrow> proms s ! p = Pending \<longrightarrow> spawn_throws s (command x) = None)
       (units s)"

definition wf :: "state \<Rightarrow> bool" where
  "wf s = (refs_ok s \<and> spawned_ok s)"

text \<open>
  A host on which \<^verbatim>\<open>spawn\<close> throws for the empty command, as Node does (its error
  \<^verbatim>\<open>ERR_INVALID_ARG_VALUE\<close>, for which the message below stands), and returns a child
  process for every other command.
\<close>

definition sample_host :: "string \<Rightarrow> string option" where
  "sample_host c = (if c = [] then Some ''The argument file cannot be empty'' else None)"

text \<open>
  A unit with one execution in flight, started by \<^verbatim>\<open>run(signal)\<close>: unit 0, process 0,
  promise 0, signal 0.
\<close>

definition running_with_token :: state where
  "running_with_token = exec [New 7 ''exit 1'', NewSignal, Run 0 (Some 0)] (init sample_host)"

text \<open>A unit that has not run and a signal that has fired already.\<close>

definition cancelled_token :: state where
  "cancelled_token = exec [New 7 ''sleep 5'', NewSignal, Abort 0] (init sample_host)"

text \<open>A unit that has not run yet, and a signal that has not fired.\<close>

definition idle_unit :: state where
  "idle_unit = exec [New 7 ''sleep 1; exit 0'', NewSignal] (init sample_host)"

text \<open>
  A unit whose one execution, started by \<^verbatim>\<open>run(signal)\<close>, has succeeded: the process
  closed with code 0.
\<close>

definition succeeded_with_token :: state where
  "succeeded_with_token =
     exec [New 7 ''exit 0'', NewSignal, Run 0 (Some 0), ProcClose 0 (Some 0)]
       (init sample_host)"

text \<open>
  A child process carries either no listener (after \<^verbatim>\<open>cleanup\<close>) or exactly the two that
  the executor attached, both closed over the same unit and promise.
\<close>

definition attached :: "child_process \<Rightarrow> bool" where
  "attached c =
     (case listeners c of
        [] \<Rightarrow> True
      | l # ls \<Rightarrow> (case l of OnError u p \<Rightarrow> ls = [OnClose u p] | OnClose u p \<Rightarrow> False))"

definition listeners_ok :: "state \<Rightarrow> bool" where
  "listeners_ok s = list_all attached (procs s)"

text \<open>
  The decimal numeral of an integer, which is what the template literal of line 67 puts in
  place of \<^verbatim>\<open>${code}\<close> for an integer exit code: a string of digits that does not start
  with 0 unless it is \<^verbatim>\<open>0\<close> itself, whose value in base ten is the number, with a minus
  sign in front for a negative number. This is stated without reference to \<open>show_int\<close>.
\<close>

definition digit_value :: "char \<Rightarrow> nat" where
  "digit_value c = of_char c - 48"

definition is_digit :: "char \<Rightarrow> bool" where
  "is_digit c = (48 \<le> (of_char c :: nat) \<and> (of_char c :: nat) \<le> 57)"

definition numeral_value :: "string \<Rightarrow> nat" where
  "numeral_value ds = foldl (\<lambda>a c. 10 * a + digit_value c) 0 ds"

definition decimal_nat :: "string \<Rightarrow> nat \<Rightarrow> bool" where
  "decimal_nat ds n =
     (ds \<noteq> [] \<and> list_all is_digit ds \<and> (hd ds = CHR ''0'' \<longrightarrow> ds = ''0'') \<and>
      numeral_value ds = n)"

definition decimal_int :: "string \<Rightarrow> int \<Rightarrow> bool" where
  "decimal_int ds i =
     (if i < 0 then ds \<noteq> [] \<and> hd ds = CHR ''-'' \<and> decimal_nat (tl ds) (nat (- i))
      else decimal_nat ds (nat i))"

text \<open>
  A unit with the empty command, for which \<^verbatim>\<open>spawn\<close> throws, after one call of
  \<^verbatim>\<open>run\<close>.
\<close>

definition refused_command :: state where
  "refused_command = exec [New 7 [], Run 0 None] (init sample_host)"

text \<open>
  Three calls of \<^verbatim>\<open>run\<close> in a row, the second one with the signal, and then the process
  of the first closes with code 1: the two invocations that waited retry one after the
  other, each with a process of its own (processes 1 and 2, promises 1 and 2).
\<close>

definition raced :: state where
  "raced =
     exec [New 7 ''exit 1'', NewSignal, Run 0 None, Run 0 (Some 0), Run 0 None,
           ProcClose 0 (Some 1)] (init sample_host)"

text \<open>
  \<^verbatim>\<open>run(signal)\<close> has started an execution, \<^verbatim>\<open>run()\<close> waits on it, and the signal has
  fired: the slot is empty again and the continuation of the waiting invocation is queued.
\<close>

definition queued_retry :: state where
  "queued_retry =
     exec [New 7 ''sleep 1; exit 0'', NewSignal, Run 0 (Some 0), Run 0 None, Abort 0]
       (init sample_host)"

section \<open>Frame lemmas\<close>

lemma settle_frame [simp]:
  "units (settle p v s) = units s" "procs (settle p v s) = procs s"
  "sigs (settle p v s) = sigs s" "calls (settle p v s) = calls s"
  "length (proms (settle p v s)) = length (proms s)"
  "spawn_throws (settle p v s) = spawn_throws s"
  by (simp_all add: settle_def)

lemma settle_pending:
  "p < length (proms s) \<Longrightarrow> proms s ! p = Pending \<Longrightarrow>
   proms (settle p v s) = (proms s)[p := v] \<and>
   microtasks (settle p v s) = microtasks s @ waiters p (calls s)"
  by (simp add: settle_def)

lemma settle_settled:
  "proms s ! p \<noteq> Pending \<Longrightarrow> settle p v s = s"
  by (simp add: settle_def)

lemma settle_other:
  "q \<noteq> p \<Longrightarrow> proms (settle p v s) ! q = proms s ! q"
  by (simp add: settle_def)

lemma settle_keeps:
  "proms s ! q \<noteq> Pending \<Longrightarrow> proms (settle p v s) ! q = proms s ! q"
  by (cases "q = p") (simp_all add: settle_def)

lemma cleanup_frame [simp]:
  "units (cleanup u s) = units s" "proms (cleanup u s) = proms s"
  "sigs (cleanup u s) = sigs s" "calls (cleanup u s) = calls s"
  "microtasks (cleanup u s) = microtasks s"
  "length (procs (cleanup u s)) = length (procs s)"
  "spawn_throws (cleanup u s) = spawn_throws s"
  by (simp_all add: cleanup_def split: option.split)

lemma set_memoizedResult_frame [simp]:
  "procs (set_memoizedResult u r s) = procs s" "proms (set_memoizedResult u r s) = proms s"
  "sigs (set_memoizedResult u r s) = sigs s" "calls (set_memoizedResult u r s) = calls s"
  "microtasks (set_memoizedResult u r s) = microtasks s"
  "length (units (set_memoizedResult u r s)) = length (units s)"
  "spawn_throws (set_memoizedResult u r s) = spawn_throws s"
  by (simp_all add: set_memoizedResult_def)

lemma set_memoizedResult_same:
  "u < length (units s) \<Longrightarrow>
   units (set_memoizedResult u r s) ! u = (units s ! u)\<lparr>memoizedResult := r\<rparr>"
  by (simp add: set_memoizedResult_def)

lemma set_memoizedResult_other:
  "v \<noteq> u \<Longrightarrow> units (set_memoizedResult u r s) ! v = units s ! v"
  by (simp add: set_memoizedResult_def)

lemma set_memoizedResult_child [simp]:
  "childProcess (units (set_memoizedResult u r s) ! v) = childProcess (units s ! v)"
  "command (units (set_memoizedResult u r s) ! v) = command (units s ! v)"
  by (cases "v = u"; cases "u < length (units s)";
      simp add: set_memoizedResult_def list_update_beyond)+

lemma handleError_frame [simp]:
  "sigs (handleError u p err s) = sigs s" "calls (handleError u p err s) = calls s"
  "length (units (handleError u p err s)) = length (units s)"
  "length (procs (handleError u p err s)) = length (procs s)"
  "length (proms (handleError u p err s)) = length (proms s)"
  "childProcess (units (handleError u p err s) ! v) = childProcess (units s ! v)"
  "command (units (handleError u p err s) ! v) = command (units s ! v)"
  "spawn_throws (handleError u p err s) = spawn_throws s"
  by (simp_all add: handleError_def reject_def)

lemma handleError_memo_same:
  "u < length (units s) \<Longrightarrow> memoizedResult (units (handleError u p err s) ! u) = None"
  by (simp add: handleError_def reject_def set_memoizedResult_same)

lemma handleError_memo_other:
  "v \<noteq> u \<Longrightarrow> memoizedResult (units (handleError u p err s) ! v) = memoizedResult (units s ! v)"
  by (simp add: handleError_def reject_def set_memoizedResult_other)

lemma handleError_rejects:
  "p < length (proms s) \<Longrightarrow> proms s ! p = Pending \<Longrightarrow>
   proms (handleError u p err s) ! p = Rejected err"
  by (simp add: handleError_def reject_def settle_pending)

lemma handleError_keeps:
  "proms s ! q \<noteq> Pending \<Longrightarrow> proms (handleError u p err s) ! q = proms s ! q"
  by (simp add: handleError_def reject_def settle_keeps)

lemma handleError_other:
  "q \<noteq> p \<Longrightarrow> proms (handleError u p err s) ! q = proms s ! q"
  by (simp add: handleError_def reject_def settle_other)

lemma cleanup_child:
  "childProcess (units s ! u) = Some c \<Longrightarrow> c < length (procs s) \<Longrightarrow>
   listeners (procs (cleanup u s) ! c) = [] \<and>
   kills (procs (cleanup u s) ! c) = Suc (kills (procs s ! c))"
  by (simp add: cleanup_def)

lemma cleanup_mono:
  "c < length (procs s) \<Longrightarrow>
   kills (procs s ! c) \<le> kills (procs (cleanup u s) ! c) \<and>
   (listeners (procs s ! c) = [] \<longrightarrow> listeners (procs (cleanup u s) ! c) = [])"
  by (cases "childProcess (units s ! u)"; cases "childProcess (units s ! u) = Some c")
     (auto simp: cleanup_def)

lemma handleError_procs [simp]:
  "procs (handleError u p err s) = procs (cleanup u s)"
  by (simp add: handleError_def reject_def)

section \<open>Dispatching a notification\<close>

lemma emit_error_in_flight:
  "listeners (procs s ! c) = [OnError u p, OnClose u p] \<Longrightarrow>
   emit_error c err s = handleError u p err s"
  by (simp add: emit_error_def)

lemma emit_close_in_flight:
  "listeners (procs s ! c) = [OnError u p, OnClose u p] \<Longrightarrow>
   emit_close c code s = onClose u p code s"
  by (simp add: emit_close_def)

lemma abort_all_frame [simp]:
  "sigs (abort_all m ls s) = sigs s" "calls (abort_all m ls s) = calls s"
  "length (units (abort_all m ls s)) = length (units s)"
  "length (procs (abort_all m ls s)) = length (procs s)"
  "length (proms (abort_all m ls s)) = length (proms s)"
  "childProcess (units (abort_all m ls s) ! v) = childProcess (units s ! v)"
  "command (units (abort_all m ls s) ! v) = command (units s ! v)"
  "spawn_throws (abort_all m ls s) = spawn_throws s"
  by (induction ls arbitrary: s; simp add: split_def)+

lemma abort_all_rejects:
  "p < length (proms s) \<Longrightarrow>
   proms s ! p = Rejected m \<or> (proms s ! p = Pending \<and> p \<in> snd ` set ls) \<Longrightarrow>
   proms (abort_all m ls s) ! p = Rejected m"
proof (induction ls arbitrary: s)
  case Nil
  then show ?case by simp
next
  case (Cons a ls)
  obtain u q where a: "a = (u, q)" by (cases a)
  let ?t = "handleError u q m s"
  have len: "p < length (proms ?t)" using Cons.prems(1) by simp
  have "proms ?t ! p = Rejected m \<or> (proms ?t ! p = Pending \<and> p \<in> snd ` set ls)"
  proof (cases "proms s ! p = Pending")
    case False
    then show ?thesis using Cons.prems(2) by (simp add: handleError_keeps)
  next
    case True
    show ?thesis
    proof (cases "q = p")
      case True
      then show ?thesis using \<open>proms s ! p = Pending\<close> Cons.prems(1)
        by (simp add: handleError_rejects)
    next
      case False
      then show ?thesis using True Cons.prems(2) a
        by (auto simp: handleError_other)
    qed
  qed
  from Cons.IH [OF len this] show ?case by (simp add: a)
qed

lemma abort_all_memo_none:
  "u < length (units s) \<Longrightarrow>
   memoizedResult (units s ! u) = None \<or> u \<in> fst ` set ls \<Longrightarrow>
   memoizedResult (units (abort_all m ls s) ! u) = None"
proof (induction ls arbitrary: s)
  case Nil
  then show ?case by simp
next
  case (Cons a ls)
  obtain v q where a: "a = (v, q)" by (cases a)
  let ?t = "handleError v q m s"
  have len: "u < length (units ?t)" using Cons.prems(1) by simp
  have "memoizedResult (units ?t ! u) = None \<or> u \<in> fst ` set ls"
    using Cons.prems a
    by (cases "v = u") (auto simp: handleError_memo_same handleError_memo_other)
  from Cons.IH [OF len this] show ?case by (simp add: a)
qed


lemma abort_all_mono:
  "c < length (procs s) \<Longrightarrow>
   kills (procs s ! c) \<le> kills (procs (abort_all m ls s) ! c) \<and>
   (listeners (procs s ! c) = [] \<longrightarrow> listeners (procs (abort_all m ls s) ! c) = [])"
proof (induction ls arbitrary: s)
  case Nil
  then show ?case by simp
next
  case (Cons a ls)
  obtain v q where a: "a = (v, q)" by (cases a)
  let ?t = "handleError v q m s"
  have len: "c < length (procs ?t)" using Cons.prems by simp
  from Cons.IH [OF len] cleanup_mono [OF Cons.prems, of v]
  show ?case by (auto simp: a)
qed

lemma abort_all_releases:
  "c < length (procs s) \<Longrightarrow> (u, p) \<in> set ls \<Longrightarrow> childProcess (units s ! u) = Some c \<Longrightarrow>
   kills (procs s ! c) < kills (procs (abort_all m ls s) ! c) \<and>
   listeners (procs (abort_all m ls s) ! c) = []"
proof (induction ls arbitrary: s)
  case Nil
  then show ?case by simp
next
  case (Cons a ls)
  obtain v q where a: "a = (v, q)" by (cases a)
  let ?t = "handleError v q m s"
  have len: "c < length (procs ?t)" using Cons.prems(1) by simp
  show ?case
  proof (cases "a = (u, p)")
    case True
    then have vq: "v = u" "q = p" using a by simp_all
    have "listeners (procs ?t ! c) = [] \<and> kills (procs ?t ! c) = Suc (kills (procs s ! c))"
      using cleanup_child [OF Cons.prems(3) Cons.prems(1)] by (simp add: vq)
    with abort_all_mono [OF len, of m ls] show ?thesis by (simp add: a)
  next
    case False
    then have mem: "(u, p) \<in> set ls" using Cons.prems(2) by simp
    have ch: "childProcess (units ?t ! u) = Some c" using Cons.prems(3) by simp
    from Cons.IH [OF len mem ch] cleanup_mono [OF Cons.prems(1), of v]
    show ?thesis by (auto simp: a)
  qed
qed

section \<open>run\<close>

lemma run_fired:
  "fired sg s \<Longrightarrow> run u sg s = s\<lparr>calls := calls s @ [Threw ''Signal already aborted'']\<rparr>"
  by (simp add: run_def)

lemma run_attach:
  "\<not> fired sg s \<Longrightarrow> memoizedResult (units s ! u) = Some q \<Longrightarrow>
   run u sg s = s\<lparr>calls := calls s @ [Awaiting u sg q],
                  microtasks := microtasks s @
                    (if proms s ! q = Pending then [] else [length (calls s)])\<rparr>"
  by (simp add: run_def)

lemma executor_spawned_frame [simp]:
  "proms (executor_spawned u sg p s) = proms s" "calls (executor_spawned u sg p s) = calls s"
  "microtasks (executor_spawned u sg p s) = microtasks s"
  "length (units (executor_spawned u sg p s)) = length (units s)"
  "length (sigs (executor_spawned u sg p s)) = length (sigs s)"
  "spawn_throws (executor_spawned u sg p s) = spawn_throws s"
  "procs (executor_spawned u sg p s) =
     procs s @ [\<lparr>cmd = command (units s ! u), listeners = [OnError u p, OnClose u p], kills = 0\<rparr>]"
  by (simp_all add: executor_spawned_def Let_def split: option.split)

lemma executor_spawned_aborted [simp]:
  "aborted (sigs (executor_spawned u sg p s) ! g) = aborted (sigs s ! g)"
proof (cases sg)
  case None
  then show ?thesis by (simp add: executor_spawned_def Let_def)
next
  case (Some h)
  then show ?thesis
    by (cases "h = g"; cases "g < length (sigs s)")
       (simp_all add: executor_spawned_def Let_def list_update_beyond)
qed

lemma executor_spawned_unit:
  "u < length (units s) \<Longrightarrow>
   units (executor_spawned u sg p s) =
     (units s)[u := (units s ! u)\<lparr>childProcess := Some (length (procs s))\<rparr>]"
  by (simp add: executor_spawned_def Let_def split: option.split)

text \<open>What the tail of \<^verbatim>\<open>run\<close> does on an empty slot, whether \<^verbatim>\<open>spawn\<close> throws or not.\<close>

lemma run_tail_fresh:
  assumes "memoizedResult (units s ! u) = None"
  shows "fst (run_tail u sg s) = length (proms s)"
    and "length (proms (snd (run_tail u sg s))) = Suc (length (proms s))"
    and "calls (snd (run_tail u sg s)) = calls s"
    and "microtasks (snd (run_tail u sg s)) = microtasks s"
    and "length (units (snd (run_tail u sg s))) = length (units s)"
    and "length (sigs (snd (run_tail u sg s))) = length (sigs s)"
    and "aborted (sigs (snd (run_tail u sg s)) ! g) = aborted (sigs s ! g)"
    and "spawn_throws (snd (run_tail u sg s)) = spawn_throws s"
  using assms
  by (simp_all add: run_tail_def executor_def Let_def split: option.split)

text \<open>When \<^verbatim>\<open>spawn\<close> returns a process.\<close>

lemma run_tail_idle:
  assumes "u < length (units s)" "memoizedResult (units s ! u) = None"
    and "spawn_throws s (command (units s ! u)) = None"
  shows "fst (run_tail u sg s) = length (proms s)"
    and "proms (snd (run_tail u sg s)) = proms s @ [Pending]"
    and "procs (snd (run_tail u sg s)) =
           procs s @ [\<lparr>cmd = command (units s ! u),
                        listeners = [OnError u (length (proms s)), OnClose u (length (proms s))],
                        kills = 0\<rparr>]"
    and "units (snd (run_tail u sg s)) =
           (units s)[u := (units s ! u)\<lparr>childProcess := Some (length (procs s)),
                                        memoizedResult := Some (length (proms s))\<rparr>]"
    and "calls (snd (run_tail u sg s)) = calls s"
    and "microtasks (snd (run_tail u sg s)) = microtasks s"
    and "length (sigs (snd (run_tail u sg s))) = length (sigs s)"
    and "aborted (sigs (snd (run_tail u sg s)) ! g) = aborted (sigs s ! g)"
  using assms
  by (simp_all add: run_tail_def executor_def Let_def executor_spawned_unit
        set_memoizedResult_def)

text \<open>When \<^verbatim>\<open>spawn\<close> throws.\<close>

lemma run_tail_throws:
  assumes "u < length (units s)" "memoizedResult (units s ! u) = None"
    and "spawn_throws s (command (units s ! u)) = Some err"
  shows "proms (snd (run_tail u sg s)) = proms s @ [Rejected err]"
    and "procs (snd (run_tail u sg s)) = procs s"
    and "units (snd (run_tail u sg s)) =
           (units s)[u := (units s ! u)\<lparr>memoizedResult := Some (length (proms s))\<rparr>]"
    and "sigs (snd (run_tail u sg s)) = sigs s"
  using assms
  by (simp_all add: run_tail_def executor_def Let_def set_memoizedResult_def)

lemma run_tail_cached:
  "memoizedResult (units s ! u) = Some r \<Longrightarrow> run_tail u sg s = (r, s)"
  by (simp add: run_tail_def)

lemma run_tail_sigs:
  assumes "u < length (units s)" "memoizedResult (units s ! u) = None"
    and "spawn_throws s (command (units s ! u)) = None"
  shows "sigs (snd (run_tail u sg s)) =
     (case sg of None \<Rightarrow> sigs s
      | Some g \<Rightarrow> (sigs s)[g := (sigs s ! g)
           \<lparr>abort_listeners := abort_listeners (sigs s ! g) @ [(u, length (proms s))]\<rparr>])"
  using assms
  by (simp add: run_tail_def executor_def Let_def executor_spawned_def set_memoizedResult_def
        split: option.split)

lemma run_idle:
  assumes "u < length (units s)" "memoizedResult (units s ! u) = None" "\<not> fired sg s"
  shows "run u sg s = (snd (run_tail u sg s))\<lparr>calls := calls s @ [Returned (length (proms s))]\<rparr>"
  using assms run_tail_fresh(1,3) [OF assms(2), of sg]
  by (simp add: run_def split_def)

lemma run_idle_spawns:
  assumes "u < length (units t)" "memoizedResult (units t ! u) = None" "\<not> fired sg t"
    and "spawn_throws t (command (units t ! u)) = None"
  shows "length (procs (run u sg t)) = Suc (length (procs t))"
    and "cmd (procs (run u sg t) ! length (procs t)) = command (units t ! u)"
    and "memoizedResult (units (run u sg t) ! u) = Some (length (proms t))"
    and "childProcess (units (run u sg t) ! u) = Some (length (procs t))"
    and "outcome (run u sg t) (length (calls t)) = Pending"
  using assms
  by (simp_all add: run_idle run_tail_idle outcome_def)

lemma onClose_success:
  "onClose u p (Some 0) s = resolve p (cleanup u s)"
  by (simp add: onClose_def)

lemma onClose_failure:
  "code \<noteq> Some 0 \<Longrightarrow> onClose u p code s = handleError u p (exit_message code) (cleanup u s)"
  by (simp add: onClose_def)

lemma abort_unfired:
  "\<not> aborted (sigs s ! g) \<Longrightarrow>
   abort g s = abort_all ''AbortSignal triggered'' (abort_listeners (sigs s ! g))
                 (s\<lparr>sigs := (sigs s)[g := (sigs s ! g)\<lparr>aborted := True\<rparr>]\<rparr>)"
  by (simp add: abort_def)

section \<open>The references of a state\<close>

text \<open>The predicate \<open>refs_ok\<close> is kept by every operation.\<close>

lemma refs_iff:
  "refs_ok s \<longleftrightarrow>
     (\<forall>x p. x \<in> set (units s) \<longrightarrow> memoizedResult x = Some p \<longrightarrow> p < length (proms s)) \<and>
     (\<forall>u sg q. Awaiting u sg q \<in> set (calls s) \<longrightarrow>
          u < length (units s) \<and> q < length (proms s)) \<and>
     (\<forall>g u p. g \<in> set (sigs s) \<longrightarrow> (u, p) \<in> set (abort_listeners g) \<longrightarrow>
          u < length (units s)) \<and>
     (\<forall>k \<in> set (microtasks s). k < length (calls s))"
proof -
  have a: "list_all (\<lambda>x. case memoizedResult x of None \<Rightarrow> True | Some p \<Rightarrow> p < length (proms s))
        (units s) \<longleftrightarrow>
     (\<forall>x p. x \<in> set (units s) \<longrightarrow> memoizedResult x = Some p \<longrightarrow> p < length (proms s))"
    by (auto simp: list_all_iff split: option.splits)
  have b: "list_all (\<lambda>c. case c of
                  Awaiting u sg q \<Rightarrow> u < length (units s) \<and> q < length (proms s)
                | _ \<Rightarrow> True) (calls s) \<longleftrightarrow>
     (\<forall>u sg q. Awaiting u sg q \<in> set (calls s) \<longrightarrow>
          u < length (units s) \<and> q < length (proms s))"
    by (auto simp: list_all_iff split: call_state.splits)
  have c: "list_all (\<lambda>g. list_all (\<lambda>up. fst up < length (units s)) (abort_listeners g)) (sigs s)
     \<longleftrightarrow> (\<forall>g u p. g \<in> set (sigs s) \<longrightarrow> (u, p) \<in> set (abort_listeners g) \<longrightarrow>
          u < length (units s))"
    by (force simp: list_all_iff)
  have d: "list_all (\<lambda>k. k < length (calls s)) (microtasks s) \<longleftrightarrow>
     (\<forall>k \<in> set (microtasks s). k < length (calls s))"
    by (simp add: list_all_iff)
  show ?thesis unfolding refs_ok_def a b c d ..
qed

lemma refs_init: "refs_ok (init h)"
  by (simp add: refs_iff init_def)

lemma refs_procs_irrelevant:
  "units t = units s \<Longrightarrow> length (proms t) = length (proms s) \<Longrightarrow> sigs t = sigs s \<Longrightarrow>
   calls t = calls s \<Longrightarrow> microtasks t = microtasks s \<Longrightarrow> refs_ok t = refs_ok s"
  by (simp add: refs_iff)

lemma waiters_bound: "k \<in> set (waiters p cs) \<Longrightarrow> k < length cs"
  by (auto simp: waiters_def in_set_enumerate_eq)

lemma in_set_updD: "x \<in> set (xs[i := v]) \<Longrightarrow> x = v \<or> x \<in> set xs"
  using set_update_subset_insert [of xs i v] by auto

lemma refs_settle: "refs_ok s \<Longrightarrow> refs_ok (settle p v s)"
proof (cases "p < length (proms s) \<and> proms s ! p = Pending")
  case False
  assume "refs_ok s"
  moreover have "settle p v s = s" using False by (auto simp: settle_def)
  ultimately show ?thesis by simp
next
  case True
  assume w: "refs_ok s"
  have st: "settle p v s = s\<lparr>proms := (proms s)[p := v],
             microtasks := microtasks s @ waiters p (calls s)\<rparr>"
    using True by (simp add: settle_def)
  show ?thesis using w unfolding st refs_iff
    by (auto dest: waiters_bound)
qed

lemma refs_cleanup: "refs_ok s \<Longrightarrow> refs_ok (cleanup u s)"
  by (simp add: refs_procs_irrelevant [of "cleanup u s" s])

lemma refs_clear: "refs_ok s \<Longrightarrow> refs_ok (set_memoizedResult u None s)"
  unfolding refs_iff set_memoizedResult_def
  by (auto dest!: in_set_updD)

lemma refs_handleError: "refs_ok s \<Longrightarrow> refs_ok (handleError u p err s)"
  by (simp add: handleError_def reject_def refs_settle refs_clear refs_cleanup)

lemma refs_onClose: "refs_ok s \<Longrightarrow> refs_ok (onClose u p code s)"
  by (simp add: onClose_def Let_def resolve_def refs_settle refs_handleError refs_cleanup)

lemma refs_fold:
  assumes "\<And>l t. refs_ok t \<Longrightarrow> refs_ok (f l t)"
  shows "refs_ok s \<Longrightarrow> refs_ok (fold f ls s)"
  by (induction ls arbitrary: s) (simp_all add: assms)

lemma refs_abort_all: "refs_ok s \<Longrightarrow> refs_ok (abort_all m ls s)"
  by (rule refs_fold) (simp add: split_def refs_handleError)

lemma refs_emit_error: "refs_ok s \<Longrightarrow> refs_ok (emit_error c err s)"
  unfolding emit_error_def
  by (rule refs_fold) (simp add: refs_handleError split: proc_listener.split)

lemma refs_emit_close: "refs_ok s \<Longrightarrow> refs_ok (emit_close c code s)"
  unfolding emit_close_def
  by (rule refs_fold) (simp add: refs_onClose split: proc_listener.split)

lemma refs_unitD:
  "refs_ok s \<Longrightarrow> x \<in> set (units s) \<Longrightarrow> memoizedResult x = Some p \<Longrightarrow> p < length (proms s)"
  unfolding refs_iff by blast

lemma refs_callD:
  "refs_ok s \<Longrightarrow> Awaiting u sg q \<in> set (calls s) \<Longrightarrow> u < length (units s) \<and> q < length (proms s)"
  unfolding refs_iff by blast

lemma refs_sigD:
  "refs_ok s \<Longrightarrow> g \<in> set (sigs s) \<Longrightarrow> (u, p) \<in> set (abort_listeners g) \<Longrightarrow> u < length (units s)"
  unfolding refs_iff by blast

lemma refs_taskD: "refs_ok s \<Longrightarrow> k \<in> set (microtasks s) \<Longrightarrow> k < length (calls s)"
  unfolding refs_iff by blast

lemma refs_okI:
  assumes "\<And>x p. x \<in> set (units s) \<Longrightarrow> memoizedResult x = Some p \<Longrightarrow> p < length (proms s)"
    and "\<And>u sg q. Awaiting u sg q \<in> set (calls s) \<Longrightarrow>
           u < length (units s) \<and> q < length (proms s)"
    and "\<And>g u p. g \<in> set (sigs s) \<Longrightarrow> (u, p) \<in> set (abort_listeners g) \<Longrightarrow>
           u < length (units s)"
    and "\<And>k. k \<in> set (microtasks s) \<Longrightarrow> k < length (calls s)"
  shows "refs_ok s"
  unfolding refs_iff using assms by blast

lemma refs_set_aborted:
  assumes w: "refs_ok s"
  shows "refs_ok (s\<lparr>sigs := (sigs s)[g := (sigs s ! g)\<lparr>aborted := True\<rparr>]\<rparr>)"
proof (cases "g < length (sigs s)")
  case False
  then show ?thesis using assms by (simp add: list_update_beyond)
next
  case True
  then have m: "sigs s ! g \<in> set (sigs s)" by simp
  show ?thesis
  proof (rule refs_okI)
    fix h u p
    assume "h \<in> set (sigs (s\<lparr>sigs := (sigs s)[g := (sigs s ! g)\<lparr>aborted := True\<rparr>]\<rparr>))"
      and l: "(u, p) \<in> set (abort_listeners h)"
    then have "h = (sigs s ! g)\<lparr>aborted := True\<rparr> \<or> h \<in> set (sigs s)"
      by (auto dest: in_set_updD)
    then show "u < length (units (s\<lparr>sigs := (sigs s)[g := (sigs s ! g)\<lparr>aborted := True\<rparr>]\<rparr>))"
      using l refs_sigD [OF w m] refs_sigD [OF w] by auto
  qed (use w in \<open>auto dest: refs_unitD refs_callD refs_taskD\<close>)
qed

lemma refs_abort: "refs_ok s \<Longrightarrow> refs_ok (abort g s)"
  by (simp add: abort_def refs_set_aborted refs_abort_all)

lemma refs_new_unit: "refs_ok s \<Longrightarrow> refs_ok (new_unit i c s)"
  unfolding refs_iff new_unit_def by (auto simp: less_Suc_eq)

lemma refs_new_signal: "refs_ok s \<Longrightarrow> refs_ok (new_signal s)"
  unfolding refs_iff new_signal_def by auto

lemma refs_memoize:
  assumes w: "refs_ok s" and u: "u < length (units s)"
  shows "refs_ok (memoize u s)"
proof (rule refs_okI)
  fix x p
  assume "x \<in> set (units (memoize u s))" "memoizedResult x = Some p"
  then have "\<exists>y \<in> set (units s). memoizedResult y = Some p"
    using u by (auto simp: memoize_def)
  then show "p < length (proms (memoize u s))"
    using refs_unitD [OF w] by (auto simp: memoize_def)
qed (use w in \<open>auto simp: memoize_def less_Suc_eq dest: refs_callD refs_sigD refs_taskD\<close>)

lemma refs_run_tail:
  assumes w: "refs_ok s" and u: "u < length (units s)"
  shows "refs_ok (snd (run_tail u sg s)) \<and>
         fst (run_tail u sg s) < length (proms (snd (run_tail u sg s))) \<and>
         length (units (snd (run_tail u sg s))) = length (units s) \<and>
         calls (snd (run_tail u sg s)) = calls s"
proof (cases "memoizedResult (units s ! u)")
  case (Some r)
  have "units s ! u \<in> set (units s)" using u by simp
  then have "r < length (proms s)" using refs_unitD [OF w _ Some] by blast
  then show ?thesis using w by (simp add: run_tail_cached [OF Some])
next
  case empty: None
  let ?t = "snd (run_tail u sg s)"
  note fr = run_tail_fresh [OF empty, of sg]
  have un: "x = (units s ! u)\<lparr>memoizedResult := Some (length (proms s))\<rparr> \<or>
            x = (units s ! u)\<lparr>childProcess := Some (length (procs s)),
                               memoizedResult := Some (length (proms s))\<rparr> \<or>
            x \<in> set (units s)"
    if "x \<in> set (units ?t)" for x
  proof (cases "spawn_throws s (command (units s ! u))")
    case None
    then show ?thesis using that
      by (auto simp: run_tail_idle(4) [OF u empty None] dest!: in_set_updD)
  next
    case (Some err)
    then show ?thesis using that
      by (auto simp: run_tail_throws(3) [OF u empty Some] dest!: in_set_updD)
  qed
  have sg: "(\<exists>g. g < length (sigs s) \<and>
              h = (sigs s ! g)\<lparr>abort_listeners :=
                     abort_listeners (sigs s ! g) @ [(u, length (proms s))]\<rparr>) \<or>
            h \<in> set (sigs s)"
    if "h \<in> set (sigs ?t)" for h
  proof (cases "spawn_throws s (command (units s ! u))")
    case (Some err)
    then show ?thesis using that by (simp add: run_tail_throws(4) [OF u empty Some])
  next
    case None
    note sigs = run_tail_sigs [OF u empty None]
    show ?thesis
    proof (cases sg)
      case None
      then show ?thesis using that by (simp add: sigs)
    next
      case (Some g)
      show ?thesis
      proof (cases "g < length (sigs s)")
        case False
        then show ?thesis using that Some by (simp add: sigs list_update_beyond)
      next
        case True
        then show ?thesis using that Some by (auto simp: sigs dest: in_set_updD)
      qed
    qed
  qed
  have "refs_ok ?t"
  proof (rule refs_okI)
    fix x p
    assume "x \<in> set (units ?t)" "memoizedResult x = Some p"
    then have "p = length (proms s) \<or> (x \<in> set (units s) \<and> memoizedResult x = Some p)"
      using un [of x] by auto
    then show "p < length (proms ?t)"
      using refs_unitD [OF w] by (auto simp: fr less_Suc_eq)
  next
    fix v sg' q
    assume "Awaiting v sg' q \<in> set (calls ?t)"
    then show "v < length (units ?t) \<and> q < length (proms ?t)"
      using refs_callD [OF w, of v sg' q] by (auto simp: fr)
  next
    fix h v p
    assume h: "h \<in> set (sigs ?t)" and l: "(v, p) \<in> set (abort_listeners h)"
    have "v < length (units s)"
      using sg [OF h]
    proof (elim disjE exE conjE)
      fix g
      assume g: "g < length (sigs s)"
        and "h = (sigs s ! g)\<lparr>abort_listeners :=
                    abort_listeners (sigs s ! g) @ [(u, length (proms s))]\<rparr>"
      then have "(v, p) \<in> set (abort_listeners (sigs s ! g)) \<or> v = u" using l by auto
      then show ?thesis using u refs_sigD [OF w nth_mem [OF g]] by auto
    next
      assume "h \<in> set (sigs s)"
      then show ?thesis using l refs_sigD [OF w] by blast
    qed
    then show "v < length (units ?t)" by (simp add: fr)
  next
    fix k
    assume "k \<in> set (microtasks ?t)"
    then show "k < length (calls ?t)" using refs_taskD [OF w] by (simp add: fr)
  qed
  then show ?thesis by (simp add: fr)
qed

lemma refs_add_call:
  assumes w: "refs_ok s" and c: "case c of Awaiting v sg q \<Rightarrow> v < length (units s) \<and> q < length (proms s)
                                   | _ \<Rightarrow> True"
    and ks: "set ks \<subseteq> {..length (calls s)}"
  shows "refs_ok (s\<lparr>calls := calls s @ [c], microtasks := microtasks s @ ks\<rparr>)"
proof (rule refs_okI)
  fix v sg q
  assume "Awaiting v sg q \<in> set (calls (s\<lparr>calls := calls s @ [c], microtasks := microtasks s @ ks\<rparr>))"
  then have "Awaiting v sg q \<in> set (calls s) \<or> c = Awaiting v sg q" by auto
  then show "v < length (units (s\<lparr>calls := calls s @ [c], microtasks := microtasks s @ ks\<rparr>)) \<and>
             q < length (proms (s\<lparr>calls := calls s @ [c], microtasks := microtasks s @ ks\<rparr>))"
    using refs_callD [OF w, of v sg q] c by auto
next
  fix k
  assume "k \<in> set (microtasks (s\<lparr>calls := calls s @ [c], microtasks := microtasks s @ ks\<rparr>))"
  then show "k < length (calls (s\<lparr>calls := calls s @ [c], microtasks := microtasks s @ ks\<rparr>))"
    using refs_taskD [OF w, of k] ks by (auto simp: less_Suc_eq_le)
qed (use w in \<open>auto dest: refs_unitD refs_sigD\<close>)

lemma refs_set_call:
  assumes w: "refs_ok s" and c: "case c of Awaiting v sg q \<Rightarrow> v < length (units s) \<and> q < length (proms s)
                                   | _ \<Rightarrow> True"
  shows "refs_ok (s\<lparr>calls := (calls s)[k := c]\<rparr>)"
proof (rule refs_okI)
  fix v sg q
  assume "Awaiting v sg q \<in> set (calls (s\<lparr>calls := (calls s)[k := c]\<rparr>))"
  then have "Awaiting v sg q \<in> set (calls s) \<or> c = Awaiting v sg q"
    by (auto dest: in_set_updD)
  then show "v < length (units (s\<lparr>calls := (calls s)[k := c]\<rparr>)) \<and>
             q < length (proms (s\<lparr>calls := (calls s)[k := c]\<rparr>))"
    using refs_callD [OF w, of v sg q] c by auto
qed (use w in \<open>auto dest: refs_unitD refs_sigD refs_taskD\<close>)

lemma refs_run:
  assumes w: "refs_ok s" and u: "u < length (units s)"
  shows "refs_ok (run u sg s)"
proof (cases "fired sg s")
  case True
  have "refs_ok (s\<lparr>calls := calls s @ [Threw ''Signal already aborted''], microtasks := microtasks s @ []\<rparr>)"
    by (rule refs_add_call [OF w]) simp_all
  then show ?thesis using True by (simp add: run_fired)
next
  case nf: False
  show ?thesis
  proof (cases "memoizedResult (units s ! u)")
    case (Some q)
    have "units s ! u \<in> set (units s)" using u by simp
    then have q: "q < length (proms s)" using refs_unitD [OF w _ Some] by blast
    have "refs_ok (s\<lparr>calls := calls s @ [Awaiting u sg q],
                microtasks := microtasks s @
                  (if proms s ! q = Pending then [] else [length (calls s)])\<rparr>)"
      by (rule refs_add_call [OF w]) (use u q in simp_all)
    then show ?thesis by (simp add: run_attach [OF nf Some])
  next
    case None
    let ?t = "snd (run_tail u sg s)"
    note rt = refs_run_tail [OF w u, of sg]
    have "refs_ok (?t\<lparr>calls := calls ?t @ [Returned (length (proms s))], microtasks := microtasks ?t @ []\<rparr>)"
      by (rule refs_add_call) (use rt in simp_all)
    then show ?thesis using rt by (simp add: run_idle [OF u None nf])
  qed
qed

lemma refs_resume:
  assumes w: "refs_ok s" and k: "k < length (calls s)"
  shows "refs_ok (resume k s)"
proof (cases "calls s ! k")
  case (Awaiting u sg q)
  have "Awaiting u sg q \<in> set (calls s)" using k Awaiting by (metis nth_mem)
  then have u: "u < length (units s)" using refs_callD [OF w] by blast
  let ?x = "case proms s ! q of Rejected e \<Rightarrow> set_memoizedResult u None s | _ \<Rightarrow> s"
  have wx: "refs_ok ?x" and ux: "u < length (units ?x)"
    using w u by (simp_all add: refs_clear split: promise_state.split)
  note rt = refs_run_tail [OF wx ux, of sg]
  have "refs_ok ((snd (run_tail u sg ?x))\<lparr>calls := (calls (snd (run_tail u sg ?x)))
                 [k := Returned (fst (run_tail u sg ?x))]\<rparr>)"
    by (rule refs_set_call) (use rt in simp_all)
  then show ?thesis by (simp add: resume_def Awaiting split_def Let_def)
qed (use w in \<open>simp_all add: resume_def\<close>)

lemma refs_tick: "refs_ok s \<Longrightarrow> refs_ok (tick s)"
proof (cases "microtasks s")
  case Nil
  assume "refs_ok s"
  then show ?thesis using Nil by (simp add: tick_def)
next
  case (Cons k ks)
  assume w: "refs_ok s"
  have "refs_ok (s\<lparr>microtasks := ks\<rparr>)"
    using w Cons unfolding refs_iff by auto
  moreover have "k < length (calls (s\<lparr>microtasks := ks\<rparr>))"
    using refs_taskD [OF w, of k] Cons by simp
  ultimately show ?thesis using Cons by (simp add: tick_def refs_resume)
qed

lemma refs_drain: "refs_ok s \<Longrightarrow> refs_ok (drain s)"
proof -
  have "refs_ok s \<Longrightarrow> refs_ok ((tick ^^ n) s)" for n
    by (induction n) (simp_all add: refs_tick)
  then show "refs_ok s \<Longrightarrow> refs_ok (drain s)" by (simp add: drain_def)
qed

lemma refs_step: "refs_ok s \<Longrightarrow> refs_ok (step ev s)"
  by (cases ev)
     (simp_all add: refs_new_unit refs_new_signal refs_run refs_memoize refs_abort refs_tick
        refs_drain refs_emit_error refs_emit_close)

theorem refs_exec: "refs_ok s \<Longrightarrow> refs_ok (exec evs s)"
  unfolding exec_def by (induction evs arbitrary: s) (simp_all add: refs_step)

corollary refs_reachable: "refs_ok (exec evs (init h))"
  by (rule refs_exec [OF refs_init])

section \<open>Every reachable state is well formed\<close>

text \<open>
  The predicate \<open>wf\<close> holds in the initial state and is kept by every event, so it holds
  in every state that a sequence of events leads to.
\<close>

lemma spawned_iff:
  "spawned_ok s \<longleftrightarrow>
     (\<forall>x p. x \<in> set (units s) \<longrightarrow> memoizedResult x = Some p \<longrightarrow> proms s ! p = Pending \<longrightarrow>
        spawn_throws s (command x) = None)"
  by (auto simp: spawned_ok_def list_all_iff split: option.splits)

lemma spawned_same:
  "units t = units s \<Longrightarrow> proms t = proms s \<Longrightarrow> spawn_throws t = spawn_throws s \<Longrightarrow>
   spawned_ok t = spawned_ok s"
  by (simp add: spawned_iff)

lemma spawned_settle: "spawned_ok s \<Longrightarrow> spawned_ok (settle p v s)"
proof (cases "p < length (proms s) \<and> proms s ! p = Pending")
  case False
  assume "spawned_ok s"
  moreover have "settle p v s = s" using False by (auto simp: settle_def)
  ultimately show ?thesis by simp
next
  case True
  assume w: "spawned_ok s"
  have st: "settle p v s = s\<lparr>proms := (proms s)[p := v],
             microtasks := microtasks s @ waiters p (calls s)\<rparr>"
    using True by (simp add: settle_def)
  have "proms s ! q = Pending" if "(proms s)[p := v] ! q = Pending" for q
    using that True by (cases "q = p") simp_all
  then show ?thesis using w unfolding st spawned_iff by simp
qed

lemma spawned_cleanup: "spawned_ok s \<Longrightarrow> spawned_ok (cleanup u s)"
  by (simp add: spawned_same [of "cleanup u s" s])

lemma spawned_clear: "spawned_ok s \<Longrightarrow> spawned_ok (set_memoizedResult u None s)"
  unfolding spawned_iff set_memoizedResult_def
  by (auto dest!: in_set_updD)

lemma spawned_handleError: "spawned_ok s \<Longrightarrow> spawned_ok (handleError u p err s)"
  by (simp add: handleError_def reject_def spawned_settle spawned_clear spawned_cleanup)

lemma spawned_onClose: "spawned_ok s \<Longrightarrow> spawned_ok (onClose u p code s)"
  by (simp add: onClose_def Let_def resolve_def spawned_settle spawned_handleError
        spawned_cleanup)

lemma spawned_fold:
  assumes "\<And>l t. spawned_ok t \<Longrightarrow> spawned_ok (f l t)"
  shows "spawned_ok s \<Longrightarrow> spawned_ok (fold f ls s)"
  by (induction ls arbitrary: s) (simp_all add: assms)

lemma spawned_emit_error: "spawned_ok s \<Longrightarrow> spawned_ok (emit_error c err s)"
  unfolding emit_error_def
  by (rule spawned_fold) (simp add: spawned_handleError split: proc_listener.split)

lemma spawned_emit_close: "spawned_ok s \<Longrightarrow> spawned_ok (emit_close c code s)"
  unfolding emit_close_def
  by (rule spawned_fold) (simp add: spawned_onClose split: proc_listener.split)

lemma spawned_abort: "spawned_ok s \<Longrightarrow> spawned_ok (abort g s)"
proof -
  assume w: "spawned_ok s"
  let ?t = "s\<lparr>sigs := (sigs s)[g := (sigs s ! g)\<lparr>aborted := True\<rparr>]\<rparr>"
  have "spawned_ok ?t" using w by (simp add: spawned_same [of ?t s])
  then have "spawned_ok (abort_all m ls ?t)" for m ls
    by (rule spawned_fold [rotated]) (simp add: split_def spawned_handleError)
  then show ?thesis using w by (simp add: abort_def)
qed

lemma spawned_new_unit: "spawned_ok s \<Longrightarrow> spawned_ok (new_unit i c s)"
  unfolding spawned_iff new_unit_def by auto

lemma spawned_new_signal: "spawned_ok s \<Longrightarrow> spawned_ok (new_signal s)"
  by (simp add: spawned_iff new_signal_def)

lemma spawned_memoize:
  assumes w: "spawned_ok s" and u: "u < length (units s)"
  shows "spawned_ok (memoize u s)"
proof -
  have "units s ! u \<in> set (units s)" using u by simp
  then show ?thesis using w unfolding spawned_iff memoize_def by auto
qed

lemma wf_run_tail:
  assumes w: "wf s" and u: "u < length (units s)"
  shows "wf (snd (run_tail u sg s))"
proof -
  have r: "refs_ok s" and sp: "spawned_ok s" using w by (simp_all add: wf_def)
  let ?t = "snd (run_tail u sg s)"
  have "spawned_ok ?t"
  proof (cases "memoizedResult (units s ! u)")
    case (Some q)
    then show ?thesis using sp by (simp add: run_tail_cached)
  next
    case empty: None
    note fr = run_tail_fresh [OF empty, of sg]
    show ?thesis
    proof (cases "spawn_throws s (command (units s ! u))")
      case None
      note rt = run_tail_idle [OF u empty None, of sg]
      show ?thesis unfolding spawned_iff
      proof (intro allI impI)
        fix x p
        assume x: "x \<in> set (units ?t)" "memoizedResult x = Some p" "proms ?t ! p = Pending"
        from x(1) have "x = (units s ! u)\<lparr>childProcess := Some (length (procs s)),
                                           memoizedResult := Some (length (proms s))\<rparr> \<or>
                        x \<in> set (units s)"
          by (auto simp: rt dest!: in_set_updD)
        then show "spawn_throws ?t (command x) = None"
        proof
          assume "x = (units s ! u)\<lparr>childProcess := Some (length (procs s)),
                                     memoizedResult := Some (length (proms s))\<rparr>"
          then show ?thesis using None by (simp add: fr)
        next
          assume m: "x \<in> set (units s)"
          then have "p < length (proms s)" using refs_unitD [OF r m x(2)] by simp
          then have "proms s ! p = Pending" using x(3) by (simp add: rt nth_append)
          then show ?thesis using sp m x(2) by (auto simp: spawned_iff fr)
        qed
      qed
    next
      case (Some err)
      note rt = run_tail_throws [OF u empty Some, of sg]
      show ?thesis unfolding spawned_iff
      proof (intro allI impI)
        fix x p
        assume x: "x \<in> set (units ?t)" "memoizedResult x = Some p" "proms ?t ! p = Pending"
        from x(1) have "x = (units s ! u)\<lparr>memoizedResult := Some (length (proms s))\<rparr> \<or>
                        x \<in> set (units s)"
          by (auto simp: rt dest!: in_set_updD)
        then show "spawn_throws ?t (command x) = None"
        proof
          assume "x = (units s ! u)\<lparr>memoizedResult := Some (length (proms s))\<rparr>"
          then have "p = length (proms s)" using x(2) by simp
          then show ?thesis using x(3) by (simp add: rt)
        next
          assume m: "x \<in> set (units s)"
          then have "p < length (proms s)" using refs_unitD [OF r m x(2)] by simp
          then have "proms s ! p = Pending" using x(3) by (simp add: rt nth_append)
          then show ?thesis using sp m x(2) by (auto simp: spawned_iff fr)
        qed
      qed
    qed
  qed
  then show ?thesis using refs_run_tail [OF r u, of sg] by (simp add: wf_def)
qed

lemma spawned_calls:
  "spawned_ok s \<Longrightarrow> spawned_ok (s\<lparr>calls := cs, microtasks := ks\<rparr>)"
  "spawned_ok s \<Longrightarrow> spawned_ok (s\<lparr>calls := cs\<rparr>)"
  "spawned_ok s \<Longrightarrow> spawned_ok (s\<lparr>microtasks := ks\<rparr>)"
  by (simp_all add: spawned_iff)

lemma wf_run:
  assumes w: "wf s" and u: "u < length (units s)"
  shows "wf (run u sg s)"
proof -
  have r: "refs_ok s" and sp: "spawned_ok s" using w by (simp_all add: wf_def)
  have "spawned_ok (run u sg s)"
  proof (cases "fired sg s")
    case True
    then show ?thesis using sp by (simp add: run_fired spawned_calls)
  next
    case nf: False
    show ?thesis
    proof (cases "memoizedResult (units s ! u)")
      case (Some q)
      then show ?thesis using sp by (simp add: run_attach [OF nf] spawned_calls)
    next
      case None
      have "spawned_ok (snd (run_tail u sg s))"
        using wf_run_tail [OF w u, of sg] by (simp add: wf_def)
      then show ?thesis by (simp add: run_idle [OF u None nf] spawned_calls)
    qed
  qed
  then show ?thesis using refs_run [OF r u, of sg] by (simp add: wf_def)
qed

lemma wf_resume:
  assumes w: "wf s" and k: "k < length (calls s)"
  shows "wf (resume k s)"
proof -
  have r: "refs_ok s" and sp: "spawned_ok s" using w by (simp_all add: wf_def)
  have "spawned_ok (resume k s)"
  proof (cases "calls s ! k")
    case (Awaiting u sg q)
    have "Awaiting u sg q \<in> set (calls s)" using k Awaiting by (metis nth_mem)
    then have u: "u < length (units s)" using refs_callD [OF r] by blast
    let ?x = "case proms s ! q of Rejected e \<Rightarrow> set_memoizedResult u None s | _ \<Rightarrow> s"
    have "wf ?x" and "u < length (units ?x)"
      using r sp u by (simp_all add: wf_def refs_clear spawned_clear split: promise_state.split)
    then have "spawned_ok (snd (run_tail u sg ?x))"
      using wf_run_tail [of ?x u sg] by (simp add: wf_def)
    then show ?thesis by (simp add: resume_def Awaiting split_def Let_def spawned_calls)
  qed (use sp in \<open>simp_all add: resume_def\<close>)
  then show ?thesis using refs_resume [OF r k] by (simp add: wf_def)
qed

lemma wf_tick: "wf s \<Longrightarrow> wf (tick s)"
proof (cases "microtasks s")
  case Nil
  assume "wf s"
  then show ?thesis using Nil by (simp add: tick_def)
next
  case (Cons k ks)
  assume w: "wf s"
  have "refs_ok (tick s)" using w by (simp add: wf_def refs_tick)
  have "wf (s\<lparr>microtasks := ks\<rparr>)"
    using w Cons by (auto simp: wf_def spawned_calls refs_iff)
  moreover have "k < length (calls (s\<lparr>microtasks := ks\<rparr>))"
    using w Cons refs_taskD [of s k] by (simp add: wf_def)
  ultimately show ?thesis using Cons by (simp add: tick_def wf_resume)
qed

lemma wf_drain: "wf s \<Longrightarrow> wf (drain s)"
proof -
  have "wf s \<Longrightarrow> wf ((tick ^^ n) s)" for n
    by (induction n) (simp_all add: wf_tick)
  then show "wf s \<Longrightarrow> wf (drain s)" by (simp add: drain_def)
qed

lemma wf_step: "wf s \<Longrightarrow> wf (step ev s)"
proof (cases ev)
  case (ProcError c err)
  assume "wf s"
  then have "wf (drain s)" by (rule wf_drain)
  then have "wf (emit_error c err (drain s))"
    by (simp add: wf_def refs_emit_error spawned_emit_error)
  then show ?thesis using \<open>wf s\<close> ProcError by (simp add: wf_drain)
next
  case (ProcClose c code)
  assume "wf s"
  then have "wf (drain s)" by (rule wf_drain)
  then have "wf (emit_close c code (drain s))"
    by (simp add: wf_def refs_emit_close spawned_emit_close)
  then show ?thesis using \<open>wf s\<close> ProcClose by (simp add: wf_drain)
qed (simp_all add: wf_run wf_tick,
     simp_all add: wf_def refs_new_unit spawned_new_unit refs_new_signal spawned_new_signal
       refs_memoize spawned_memoize refs_abort spawned_abort)

lemma wf_init: "wf (init h)"
  by (simp add: wf_def refs_init spawned_iff, simp add: init_def)

theorem wf_exec: "wf s \<Longrightarrow> wf (exec evs s)"
  unfolding exec_def by (induction evs arbitrary: s) (simp_all add: wf_step)

corollary wf_reachable: "wf (exec evs (init h))"
  by (rule wf_exec [OF wf_init])

section \<open>The listeners of a process\<close>

lemma attached_cases:
  "attached c \<longleftrightarrow> listeners c = [] \<or> (\<exists>u p. listeners c = [OnError u p, OnClose u p])"
  by (auto simp: attached_def split: list.splits proc_listener.splits)

lemma listeners_ok_procs: "procs t = procs s \<Longrightarrow> listeners_ok t = listeners_ok s"
  by (simp add: listeners_ok_def)

lemma listeners_ok_cleanup: "listeners_ok s \<Longrightarrow> listeners_ok (cleanup u s)"
  unfolding listeners_ok_def cleanup_def list_all_iff
  by (auto simp: attached_def split: option.split dest!: in_set_updD)

lemma listeners_ok_handleError: "listeners_ok s \<Longrightarrow> listeners_ok (handleError u p err s)"
  by (simp add: listeners_ok_cleanup listeners_ok_procs [of "handleError u p err s" "cleanup u s"])

lemma listeners_ok_onClose: "listeners_ok s \<Longrightarrow> listeners_ok (onClose u p code s)"
  by (simp add: onClose_def Let_def resolve_def listeners_ok_handleError listeners_ok_cleanup
        listeners_ok_procs [of "settle p Fulfilled (cleanup u s)" "cleanup u s"])

lemma listeners_ok_fold:
  assumes "\<And>l t. listeners_ok t \<Longrightarrow> listeners_ok (f l t)"
  shows "listeners_ok s \<Longrightarrow> listeners_ok (fold f ls s)"
  by (induction ls arbitrary: s) (simp_all add: assms)

lemma listeners_ok_run_tail: "listeners_ok s \<Longrightarrow> listeners_ok (snd (run_tail u sg s))"
  by (auto simp: run_tail_def executor_def Let_def listeners_ok_def attached_def
           split: option.split)

lemma listeners_ok_run: "listeners_ok s \<Longrightarrow> listeners_ok (run u sg s)"
  using listeners_ok_run_tail [of s u sg]
  by (auto simp: run_def split_def Let_def listeners_ok_def split: option.split)

lemma listeners_ok_resume: "listeners_ok s \<Longrightarrow> listeners_ok (resume k s)"
proof (cases "calls s ! k")
  case (Awaiting u sg q)
  assume ok: "listeners_ok s"
  let ?x = "case proms s ! q of Rejected e \<Rightarrow> set_memoizedResult u None s | _ \<Rightarrow> s"
  have "listeners_ok ?x"
    using ok by (simp add: listeners_ok_def split: promise_state.split)
  from listeners_ok_run_tail [OF this, of u sg] show ?thesis
    by (simp add: resume_def Awaiting split_def Let_def listeners_ok_def)
qed (simp_all add: resume_def)

lemma listeners_ok_tick: "listeners_ok s \<Longrightarrow> listeners_ok (tick s)"
  by (cases "microtasks s")
     (simp_all add: tick_def listeners_ok_resume listeners_ok_procs [of "s\<lparr>microtasks := ks\<rparr>" s for ks])

lemma listeners_ok_drain: "listeners_ok s \<Longrightarrow> listeners_ok (drain s)"
proof -
  have "listeners_ok s \<Longrightarrow> listeners_ok ((tick ^^ n) s)" for n
    by (induction n) (simp_all add: listeners_ok_tick)
  then show "listeners_ok s \<Longrightarrow> listeners_ok (drain s)" by (simp add: drain_def)
qed

lemma listeners_ok_step: "listeners_ok s \<Longrightarrow> listeners_ok (step ev s)"
proof (cases ev)
  case (Abort g)
  assume ok: "listeners_ok s"
  have "listeners_ok (abort_all m ls t)" if "listeners_ok t" for m ls t
    using that by (rule listeners_ok_fold [rotated]) (simp add: split_def listeners_ok_handleError)
  then show ?thesis using ok Abort
    by (simp add: abort_def listeners_ok_def)
next
  case (ProcError c err)
  assume ok: "listeners_ok s"
  have "listeners_ok (emit_error c err t)" if "listeners_ok t" for t
    unfolding emit_error_def using that
    by (rule listeners_ok_fold [rotated])
       (simp add: listeners_ok_handleError split: proc_listener.split)
  then show ?thesis using ok ProcError by (simp add: listeners_ok_drain)
next
  case (ProcClose c code)
  assume ok: "listeners_ok s"
  have "listeners_ok (emit_close c code t)" if "listeners_ok t" for t
    unfolding emit_close_def using that
    by (rule listeners_ok_fold [rotated])
       (simp add: listeners_ok_onClose split: proc_listener.split)
  then show ?thesis using ok ProcClose by (simp add: listeners_ok_drain)
qed (simp_all add: listeners_ok_run listeners_ok_tick,
     simp_all add: listeners_ok_def new_unit_def new_signal_def memoize_def)

theorem listeners_ok_reachable: "listeners_ok (exec evs (init h))"
proof -
  have "listeners_ok s \<Longrightarrow> listeners_ok (exec evs s)" for s
    unfolding exec_def by (induction evs arbitrary: s) (simp_all add: listeners_ok_step)
  moreover have "listeners_ok (init h)" by (simp add: listeners_ok_def init_def)
  ultimately show ?thesis .
qed

section \<open>Draining the microtask queue\<close>

text \<open>A continuation queues nothing, so \<open>drain\<close> leaves the queue empty.\<close>

lemma run_tail_microtasks [simp]:
  "microtasks (snd (run_tail u sg s)) = microtasks s"
  by (simp add: run_tail_def executor_def Let_def split: option.split)

lemma resume_microtasks [simp]: "microtasks (resume k s) = microtasks s"
  by (simp add: resume_def split_def Let_def split: call_state.split promise_state.split)

lemma tick_microtasks: "microtasks (tick s) = tl (microtasks s)"
  by (simp add: tick_def split: list.split)

lemma ticks_microtasks: "microtasks ((tick ^^ n) s) = drop n (microtasks s)"
  by (induction n) (simp_all add: tick_microtasks drop_Suc tl_drop)

lemma drain_empties: "microtasks (drain s) = []"
  by (simp add: drain_def ticks_microtasks)

section \<open>A failed execution\<close>

text \<open>
  Take any state in which promise \<open>p\<close> of unit \<open>u\<close> is pending and one of the three
  failure notifications of its execution is dispatched: the child process emits
  \<^verbatim>\<open>'error'\<close>, or it emits \<^verbatim>\<open>'close'\<close> with a code other than 0, or the signal
  passed to \<^verbatim>\<open>run\<close> fires. When the listeners have run, the slot \<^verbatim>\<open>_memoizedResult\<close> of
  \<open>u\<close> is empty and \<open>p\<close> is rejected, which is what every caller that \<^verbatim>\<open>run\<close> handed
  \<open>p\<close> to observes; and a following call of \<^verbatim>\<open>run\<close> on \<open>u\<close>, with no signal or one that
  has not fired, spawns a new process running the unit's command (when \<^verbatim>\<open>spawn\<close>
  returns one), puts a new pending promise into the slot and returns it.
\<close>

lemma notification_clears_slot:
  assumes u: "u < length (units s)" and p: "p < length (proms s)" "proms s ! p = Pending"
    and notif:
      "(listeners (procs s ! c) = [OnError u p, OnClose u p] \<and>
          (s' = emit_error c e s \<or> (s' = emit_close c code s \<and> code \<noteq> Some 0))) \<or>
       (\<not> aborted (sigs s ! g) \<and> (u, p) \<in> set (abort_listeners (sigs s ! g)) \<and>
          s' = abort g s)"
  shows "memoizedResult (units s' ! u) = None \<and>
         (\<exists>m. proms s' ! p = Rejected m \<and>
              (\<forall>k. calls s ! k = Returned p \<longrightarrow> outcome s' k = Rejected m)) \<and>
         (\<forall>sg. \<not> fired sg s' \<and> spawn_throws s' (command (units s' ! u)) = None \<longrightarrow>
            length (procs (run u sg s')) = Suc (length (procs s')) \<and>
            cmd (procs (run u sg s') ! length (procs s')) = command (units s' ! u) \<and>
            memoizedResult (units (run u sg s') ! u) = Some (length (proms s')) \<and>
            outcome (run u sg s') (length (calls s')) = Pending)"
proof -
  have core: "u < length (units s') \<and> memoizedResult (units s' ! u) = None \<and>
              calls s' = calls s \<and> (\<exists>m. proms s' ! p = Rejected m)"
    using notif
  proof (elim disjE conjE)
    assume "listeners (procs s ! c) = [OnError u p, OnClose u p]" "s' = emit_error c e s"
    then have "s' = handleError u p e s" by (simp add: emit_error_in_flight)
    then show ?thesis using u p by (simp add: handleError_memo_same handleError_rejects)
  next
    assume "listeners (procs s ! c) = [OnError u p, OnClose u p]"
      "s' = emit_close c code s" "code \<noteq> Some 0"
    then have "s' = handleError u p (exit_message code) (cleanup u s)"
      by (simp add: emit_close_in_flight onClose_failure)
    then show ?thesis using u p by (simp add: handleError_memo_same handleError_rejects)
  next
    let ?t = "s\<lparr>sigs := (sigs s)[g := (sigs s ! g)\<lparr>aborted := True\<rparr>]\<rparr>"
    assume a: "\<not> aborted (sigs s ! g)" "(u, p) \<in> set (abort_listeners (sigs s ! g))"
      "s' = abort g s"
    then have s': "s' = abort_all ''AbortSignal triggered'' (abort_listeners (sigs s ! g)) ?t"
      by (simp add: abort_unfired)
    have "u \<in> fst ` set (abort_listeners (sigs s ! g))"
      and "p \<in> snd ` set (abort_listeners (sigs s ! g))"
      using a(2) by force+
    then show ?thesis using u p
      by (simp add: s' abort_all_memo_none abort_all_rejects)
  qed
  then obtain m where m: "proms s' ! p = Rejected m" by blast
  have "\<forall>k. calls s ! k = Returned p \<longrightarrow> outcome s' k = Rejected m"
    using core m by (simp add: outcome_def)
  moreover have "\<forall>sg. \<not> fired sg s' \<and> spawn_throws s' (command (units s' ! u)) = None \<longrightarrow>
            length (procs (run u sg s')) = Suc (length (procs s')) \<and>
            cmd (procs (run u sg s') ! length (procs s')) = command (units s' ! u) \<and>
            memoizedResult (units (run u sg s') ! u) = Some (length (proms s')) \<and>
            outcome (run u sg s') (length (calls s')) = Pending"
  proof (intro allI impI)
    fix sg
    assume "\<not> fired sg s' \<and> spawn_throws s' (command (units s' ! u)) = None"
    then have f: "\<not> fired sg s'" and sp: "spawn_throws s' (command (units s' ! u)) = None"
      by simp_all
    have u': "u < length (units s')" and n': "memoizedResult (units s' ! u) = None"
      using core by simp_all
    from run_idle_spawns(1,2,3,5) [OF u' n' f sp]
    show "length (procs (run u sg s')) = Suc (length (procs s')) \<and>
            cmd (procs (run u sg s') ! length (procs s')) = command (units s' ! u) \<and>
            memoizedResult (units (run u sg s') ! u) = Some (length (proms s')) \<and>
            outcome (run u sg s') (length (calls s')) = Pending"
      by blast
  qed
  ultimately show ?thesis using core m by blast
qed

text \<open>
  Claim C2 does not hold of the code. \<^verbatim>\<open>new PredictedProcess(7, '').run()\<close>:
  \<^verbatim>\<open>spawn\<close> throws at line 51, the constructor of the promise rejects it, and line 50 stores
  the rejected promise in \<^verbatim>\<open>_memoizedResult\<close>. No listener exists that could run
  \<^verbatim>\<open>handleError\<close>, so the slot keeps the failed result: the caller sees the failure, and
  the slot is not empty. The next call of \<^verbatim>\<open>run\<close> finds the slot filled and awaits the
  failed promise; its continuation empties the slot, tries again, and leaves the next
  rejected promise there.
\<close>

theorem spawn_failure_retained:
  "procs refused_command = [] \<and>
   outcome refused_command 0 = Rejected ''The argument file cannot be empty'' \<and>
   memoizedResult (units refused_command ! 0) = Some 0 \<and>
   proms refused_command ! 0 = Rejected ''The argument file cannot be empty'' \<and>
   calls (exec [Run 0 None] refused_command) ! 1 = Awaiting 0 None 0 \<and>
   procs (exec [Run 0 None, Tick] refused_command) = [] \<and>
   memoizedResult (units (exec [Run 0 None, Tick] refused_command) ! 0) = Some 1 \<and>
   proms (exec [Run 0 None, Tick] refused_command) ! 1 =
     Rejected ''The argument file cannot be empty''"
  by code_simp

section \<open>A signal that has fired already\<close>

text \<open>
  Claim C3. For every unit \<open>u\<close> (whatever its command) and every state, \<^verbatim>\<open>run\<close> called
  with a signal whose \<^verbatim>\<open>aborted\<close> flag is set throws at once: the invocation is rejected
  with the message \<^verbatim>\<open>Signal already aborted\<close>, no process is added to the table of
  processes, and the units (so \<^verbatim>\<open>_memoizedResult\<close> and \<^verbatim>\<open>_childProcess\<close> of every unit), the
  promises, the signals and the microtask queue are what they were.
\<close>

theorem prefired_token_rejects:
  assumes "aborted (sigs s ! g)"
  shows "calls (run u (Some g) s) = calls s @ [Threw ''Signal already aborted''] \<and>
         outcome (run u (Some g) s) (length (calls s)) = Rejected ''Signal already aborted'' \<and>
         procs (run u (Some g) s) = procs s \<and>
         units (run u (Some g) s) = units s \<and>
         proms (run u (Some g) s) = proms s \<and>
         sigs (run u (Some g) s) = sigs s \<and>
         microtasks (run u (Some g) s) = microtasks s"
  using assms by (simp add: run_fired fired_def outcome_def)

theorem prefired_token_rejects_witness:
  "aborted (sigs cancelled_token ! 0) \<and>
   outcome (run 0 (Some 0) cancelled_token) (length (calls cancelled_token)) =
     Rejected ''Signal already aborted'' \<and>
   procs (run 0 (Some 0) cancelled_token) = [] \<and>
   units (run 0 (Some 0) cancelled_token) = units cancelled_token"
proof -
  have a: "aborted (sigs cancelled_token ! 0)" by code_simp
  have e: "procs cancelled_token = []" by code_simp
  from prefired_token_rejects [OF a, of 0] a e show ?thesis by simp
qed

section \<open>memoize\<close>

text \<open>
  Claim C7. \<^verbatim>\<open>memoize\<close> on an existing unit \<open>u\<close> creates one new unit and changes nothing
  else. The new unit has the \<^verbatim>\<open>id\<close> and the \<^verbatim>\<open>command\<close> of \<open>u\<close>, its
  \<^verbatim>\<open>_memoizedResult\<close> is the reference that \<open>u\<close> holds at the moment of the call (the same
  promise, or \<^verbatim>\<open>null\<close> when \<open>u\<close> holds none), and its \<^verbatim>\<open>_childProcess\<close> is \<^verbatim>\<open>null\<close>.
\<close>

theorem snapshot_shares_slot:
  assumes "u < length (units s)"
  shows "units (step (Memoize u) s) =
           units s @ [\<lparr>id_pp = id_pp (units s ! u), command = command (units s ! u),
                        childProcess = None,
                        memoizedResult = memoizedResult (units s ! u)\<rparr>] \<and>
         procs (step (Memoize u) s) = procs s \<and>
         proms (step (Memoize u) s) = proms s \<and>
         sigs (step (Memoize u) s) = sigs s \<and>
         calls (step (Memoize u) s) = calls s \<and>
         microtasks (step (Memoize u) s) = microtasks s"
  using assms by (simp add: memoize_def)

theorem snapshot_shares_slot_witness:
  "0 < length (units running_with_token) \<and>
   units (step (Memoize 0) running_with_token) ! 1 =
     \<lparr>id_pp = 7, command = ''exit 1'', childProcess = None, memoizedResult = Some 0\<rparr> \<and>
   units (step (Memoize 0) running_with_token) ! 0 = units running_with_token ! 0 \<and>
   memoizedResult (units running_with_token ! 0) = Some 0 \<and>
   childProcess (units running_with_token ! 0) = Some 0"
proof -
  have u: "0 < length (units running_with_token)" by code_simp
  have v: "units running_with_token =
    [\<lparr>id_pp = 7, command = ''exit 1'', childProcess = Some 0, memoizedResult = Some 0\<rparr>]"
    by code_simp
  from snapshot_shares_slot [OF u] u v show ?thesis by simp
qed

lemma resolve_frame [simp]:
  "units (resolve p s) = units s" "procs (resolve p s) = procs s"
  "sigs (resolve p s) = sigs s" "calls (resolve p s) = calls s"
  "length (proms (resolve p s)) = length (proms s)"
  "spawn_throws (resolve p s) = spawn_throws s"
  by (simp_all add: resolve_def)

lemma resolve_pending:
  "p < length (proms s) \<Longrightarrow> proms s ! p = Pending \<Longrightarrow>
   proms (resolve p s) = (proms s)[p := Fulfilled] \<and>
   microtasks (resolve p s) = microtasks s @ waiters p (calls s)"
  by (simp add: resolve_def settle_pending)

section \<open>Decimal numerals\<close>

text \<open>
  \<open>show_int\<close> renders an integer as its decimal numeral, and the decimal numeral of an
  integer is unique.
\<close>

declare show_nat.simps [simp del]

lemma numeral_value_snoc:
  "numeral_value (ds @ [c]) = 10 * numeral_value ds + digit_value c"
  by (simp add: numeral_value_def)

lemma char_of_48: "char_of (48::nat) = CHR ''0''"
  by code_simp

lemma of_char_48: "(of_char c :: nat) = 48 \<Longrightarrow> c = CHR ''0''"
proof -
  assume "(of_char c :: nat) = 48"
  then have "char_of (of_char c :: nat) = char_of (48::nat)" by simp
  then show ?thesis by (simp add: char_of_48)
qed

lemma div_mod_digit: "10 * (a::nat) + b = n \<Longrightarrow> b < 10 \<Longrightarrow> b = n mod 10 \<and> a = n div 10"
  by auto

lemma digit_char:
  assumes "d < 10"
  shows "is_digit (char_of (48 + d))" "digit_value (char_of (48 + d)) = d"
    "char_of (48 + d) = CHR ''0'' \<longleftrightarrow> d = 0"
proof -
  have o: "of_char (char_of (48 + d)) = 48 + d" using assms by (simp add: of_char_of)
  show "is_digit (char_of (48 + d))" "digit_value (char_of (48 + d)) = d"
    using assms by (simp_all add: is_digit_def digit_value_def o)
  have z: "of_char CHR ''0'' = (48::nat)" by simp
  show "char_of (48 + d) = CHR ''0'' \<longleftrightarrow> d = 0"
  proof
    assume "char_of (48 + d) = CHR ''0''"
    then have "(of_char (char_of (48 + d)) :: nat) = of_char CHR ''0''" by simp
    then show "d = 0" unfolding o z by simp
  next
    assume "d = 0"
    then show "char_of (48 + d) = CHR ''0''" by (simp add: char_of_48)
  qed
qed

lemma show_nat_nonempty: "show_nat n \<noteq> []"
  by (subst show_nat.simps) simp

lemma show_nat_decimal: "decimal_nat (show_nat n) n"
proof (induction n rule: show_nat.induct)
  case (1 n)
  show ?case
  proof (cases "n < 10")
    case True
    then have s: "show_nat n = [char_of (48 + n)]" by (subst show_nat.simps) simp
    show ?thesis using digit_char [OF True]
      by (simp add: s decimal_nat_def numeral_value_def char_of_48)
  next
    case False
    let ?xs = "show_nat (n div 10)" and ?c = "char_of (48 + n mod 10)"
    have s: "show_nat n = ?xs @ [?c]" using False by (subst show_nat.simps) simp
    have ih: "decimal_nat ?xs (n div 10)" using 1 False by simp
    have d: "n mod 10 < 10" by simp
    have ne: "?xs \<noteq> []" by (rule show_nat_nonempty)
    have "hd ?xs \<noteq> CHR ''0''"
    proof
      assume "hd ?xs = CHR ''0''"
      then have z: "?xs = ''0''" using ih by (simp add: decimal_nat_def)
      have "numeral_value ''0'' = 0" by (simp add: numeral_value_def digit_value_def)
      moreover have "numeral_value ?xs = n div 10" using ih by (simp add: decimal_nat_def)
      ultimately have "n div 10 = 0" unfolding z by simp
      then show False using False by arith
    qed
    then show ?thesis using ih ne digit_char [OF d]
      by (simp add: s decimal_nat_def numeral_value_snoc)
  qed
qed

lemma numeral_value_ge:
  "a \<le> foldl (\<lambda>a c. 10 * a + digit_value c) a ds"
proof (induction ds arbitrary: a)
  case Nil
  show ?case by simp
next
  case (Cons d ds)
  have "a \<le> 10 * a + digit_value d" by simp
  also have "\<dots> \<le> foldl (\<lambda>a c. 10 * a + digit_value c) (10 * a + digit_value d) ds"
    by (rule Cons.IH)
  finally show ?case by simp
qed

lemma leading_digit_positive:
  assumes "ds \<noteq> []" "is_digit (hd ds)" "hd ds \<noteq> CHR ''0''"
  shows "0 < numeral_value ds"
proof -
  obtain d rest where ds: "ds = d # rest" using assms(1) by (cases ds) auto
  have "of_char d \<noteq> (48::nat)"
    using of_char_48 [of d] assms(3) ds by auto
  then have "0 < digit_value d" using assms(2) ds by (simp add: is_digit_def digit_value_def)
  moreover have "digit_value d \<le> numeral_value ds"
    using numeral_value_ge [of "digit_value d" rest] by (simp add: ds numeral_value_def)
  ultimately show ?thesis by simp
qed

lemma digit_char_unique:
  assumes "is_digit c"
  shows "c = char_of (48 + digit_value c)" "digit_value c < 10"
proof -
  have b: "48 \<le> (of_char c :: nat)" "(of_char c :: nat) \<le> 57"
    using assms by (simp_all add: is_digit_def)
  have "48 + digit_value c = (of_char c :: nat)" using b by (simp add: digit_value_def)
  then have "char_of (48 + digit_value c) = char_of (of_char c :: nat)" by simp
  then show "c = char_of (48 + digit_value c)" by simp
  show "digit_value c < 10" using b unfolding digit_value_def by linarith
qed

lemma decimal_nat_unique: "decimal_nat ds n \<Longrightarrow> ds = show_nat n"
proof (induction n arbitrary: ds rule: show_nat.induct)
  case (1 n)
  from "1.prems" have ne: "ds \<noteq> []" and dg: "list_all is_digit ds"
    and lz: "hd ds = CHR ''0'' \<longrightarrow> ds = ''0''" and v: "numeral_value ds = n"
    by (simp_all add: decimal_nat_def)
  obtain xs c where ds: "ds = xs @ [c]" using ne by (cases ds rule: rev_cases) auto
  have c: "is_digit c" and xd: "list_all is_digit xs" using dg ds by simp_all
  have val: "10 * numeral_value xs + digit_value c = n" using v ds by (simp add: numeral_value_snoc)
  have cl: "digit_value c < 10" and cc: "c = char_of (48 + digit_value c)"
    using digit_char_unique [OF c] by simp_all
  have dv: "digit_value c = n mod 10" and xv: "numeral_value xs = n div 10"
    using div_mod_digit [OF val cl] by simp_all
  have lead: "0 < numeral_value xs" if "xs \<noteq> []"
  proof (rule leading_digit_positive [OF that])
    show "is_digit (hd xs)" using xd that by (cases xs) simp_all
    show "hd xs \<noteq> CHR ''0''"
    proof
      assume "hd xs = CHR ''0''"
      then have "hd ds = CHR ''0''" using that ds by simp
      then have "ds = ''0''" using lz by simp
      then show False using that ds by simp
    qed
  qed
  show ?case
  proof (cases "n < 10")
    case True
    then have "numeral_value xs = 0" using xv by simp
    then have "xs = []" using lead by (cases "xs = []") simp_all
    then show ?thesis using True cc dv ds by (subst show_nat.simps) simp
  next
    case False
    then have "0 < numeral_value xs" using xv by simp
    then have xne: "xs \<noteq> []" by (auto simp: numeral_value_def)
    have "hd xs \<noteq> CHR ''0''"
    proof
      assume "hd xs = CHR ''0''"
      then have "hd ds = CHR ''0''" using xne ds by simp
      then have "ds = ''0''" using lz by simp
      then show False using xne ds by simp
    qed
    then have "decimal_nat xs (n div 10)"
      using xne xd xv by (simp add: decimal_nat_def)
    then have "xs = show_nat (n div 10)" using "1.IH" False by simp
    then show ?thesis using False cc dv ds by (subst show_nat.simps) simp
  qed
qed

lemma show_int_decimal: "decimal_int (show_int i) i"
  using show_nat_decimal by (simp add: decimal_int_def show_int_def)

lemma decimal_int_unique: "decimal_int ds i \<Longrightarrow> ds = show_int i"
proof (cases "i < 0")
  case True
  assume "decimal_int ds i"
  then have "ds \<noteq> []" "hd ds = CHR ''-''" "tl ds = show_nat (nat (- i))"
    using True by (simp_all add: decimal_int_def decimal_nat_unique)
  then show ?thesis using True by (cases ds) (simp_all add: show_int_def)
next
  case False
  assume "decimal_int ds i"
  then show ?thesis using False by (simp add: decimal_int_def show_int_def decimal_nat_unique)
qed

section \<open>The messages of the failures\<close>

text \<open>
  A process ended by a signal closes with the code \<^verbatim>\<open>null\<close>, which is not 0 either, and
  the template literal renders it as \<^verbatim>\<open>null\<close>.
\<close>

lemma null_exit_message: "exit_message None = ''Process exited with code null''"
  by (simp add: exit_message_def show_code_def)

text \<open>
  Claim C9. The error that reaches the caller carries these messages: \<^verbatim>\<open>Signal already aborted\<close>
  when \<^verbatim>\<open>run\<close> is called with a signal that has fired; \<^verbatim>\<open>Process exited with code \<close>
  followed by the decimal numeral of the exit code (the one string that is a decimal
  numeral of it) when the process of a pending execution closes with an integer code other
  than 0; \<^verbatim>\<open>AbortSignal triggered\<close> when the signal of a pending execution fires.
\<close>

theorem failure_messages:
  "(fired sg s \<longrightarrow>
      outcome (run u sg s) (length (calls s)) = Rejected ''Signal already aborted'') \<and>
   (p < length (proms s) \<and> proms s ! p = Pending \<and>
    listeners (procs s ! c) = [OnError u p, OnClose u p] \<and> i \<noteq> 0 \<longrightarrow>
      (\<exists>ds. decimal_int ds i \<and> (\<forall>ds'. decimal_int ds' i \<longrightarrow> ds' = ds) \<and>
         proms (emit_close c (Some i) s) ! p =
           Rejected (''Process exited with code '' @ ds))) \<and>
   (p < length (proms s) \<and> proms s ! p = Pending \<and>
    \<not> aborted (sigs s ! g) \<and> (u, p) \<in> set (abort_listeners (sigs s ! g)) \<longrightarrow>
      proms (abort g s) ! p = Rejected ''AbortSignal triggered'')"
proof (intro conjI impI)
  assume "fired sg s"
  then show "outcome (run u sg s) (length (calls s)) = Rejected ''Signal already aborted''"
    by (simp add: run_fired outcome_def)
next
  assume a: "p < length (proms s) \<and> proms s ! p = Pending \<and>
    listeners (procs s ! c) = [OnError u p, OnClose u p] \<and> i \<noteq> 0"
  then have "emit_close c (Some i) s = handleError u p (exit_message (Some i)) (cleanup u s)"
    by (simp add: emit_close_in_flight onClose_failure)
  then have "proms (emit_close c (Some i) s) ! p =
      Rejected (''Process exited with code '' @ show_int i)"
    using a by (simp add: handleError_rejects exit_message_def show_code_def)
  moreover have "decimal_int (show_int i) i" by (rule show_int_decimal)
  moreover have "\<forall>ds'. decimal_int ds' i \<longrightarrow> ds' = show_int i"
    using decimal_int_unique by blast
  ultimately show "\<exists>ds. decimal_int ds i \<and> (\<forall>ds'. decimal_int ds' i \<longrightarrow> ds' = ds) \<and>
         proms (emit_close c (Some i) s) ! p = Rejected (''Process exited with code '' @ ds)"
    by blast
next
  assume a: "p < length (proms s) \<and> proms s ! p = Pending \<and>
    \<not> aborted (sigs s ! g) \<and> (u, p) \<in> set (abort_listeners (sigs s ! g))"
  then have "p \<in> snd ` set (abort_listeners (sigs s ! g))" by force
  then show "proms (abort g s) ! p = Rejected ''AbortSignal triggered''"
    using a by (simp add: abort_unfired abort_all_rejects)
qed

theorem failure_messages_witness:
  "(fired (Some 0) cancelled_token \<and>
    outcome (run 0 (Some 0) cancelled_token) (length (calls cancelled_token)) =
      Rejected ''Signal already aborted'') \<and>
   (0 < length (proms running_with_token) \<and> proms running_with_token ! 0 = Pending \<and>
    listeners (procs running_with_token ! 0) = [OnError 0 0, OnClose 0 0] \<and>
    \<not> aborted (sigs running_with_token ! 0) \<and>
    (0, 0) \<in> set (abort_listeners (sigs running_with_token ! 0)) \<and> (137::int) \<noteq> 0) \<and>
   decimal_int ''137'' 137 \<and>
   proms (emit_close 0 (Some 137) running_with_token) ! 0 =
     Rejected ''Process exited with code 137'' \<and>
   proms (abort 0 running_with_token) ! 0 = Rejected ''AbortSignal triggered''"
proof -
  let ?s = running_with_token
  have f: "fired (Some 0) cancelled_token" by code_simp
  have h: "0 < length (proms ?s)" "proms ?s ! 0 = Pending"
    "listeners (procs ?s ! 0) = [OnError 0 0, OnClose 0 0]"
    "\<not> aborted (sigs ?s ! 0)" "(0, 0) \<in> set (abort_listeners (sigs ?s ! 0))"
    by code_simp+
  have d: "decimal_int ''137'' 137" by code_simp
  have "outcome (run 0 (Some 0) cancelled_token) (length (calls cancelled_token)) =
      Rejected ''Signal already aborted''"
    using failure_messages [of "Some 0" cancelled_token 0] f by blast
  moreover have "\<exists>ds. decimal_int ds 137 \<and> (\<forall>ds'. decimal_int ds' 137 \<longrightarrow> ds' = ds) \<and>
      proms (emit_close 0 (Some 137) ?s) ! 0 = Rejected (''Process exited with code '' @ ds)"
    using failure_messages [of _ ?s 0 0 0 137] h by simp
  then have "proms (emit_close 0 (Some 137) ?s) ! 0 = Rejected ''Process exited with code 137''"
    using d by auto
  moreover have "proms (abort 0 ?s) ! 0 = Rejected ''AbortSignal triggered''"
    using failure_messages [of _ ?s 0 0 _ _ 0] h by blast
  ultimately show ?thesis using f h d by simp
qed

section \<open>Cleanup at settlement\<close>

text \<open>
  Take an execution of unit \<open>u\<close> whose promise \<open>p\<close> is pending and whose process \<open>c\<close> is
  the one \<^verbatim>\<open>_childProcess\<close> of \<open>u\<close> refers to. Whichever notification settles it (the
  process emits \<^verbatim>\<open>'error'\<close>, it emits \<^verbatim>\<open>'close'\<close> with any code, or the signal fires),
  \<^verbatim>\<open>cleanup\<close> has run when the listeners return: no listener is left on the process,
  \<^verbatim>\<open>kill()\<close> has been called on it, and the promise is settled. \<^verbatim>\<open>_childProcess\<close> still
  refers to the process.
\<close>

lemma cleanup_releases_current_process:
  assumes c: "c < length (procs s)" and ch: "childProcess (units s ! u) = Some c"
    and p: "p < length (proms s)" "proms s ! p = Pending"
    and notif:
      "(listeners (procs s ! c) = [OnError u p, OnClose u p] \<and>
          (s' = emit_error c e s \<or> s' = emit_close c code s)) \<or>
       (\<not> aborted (sigs s ! g) \<and> (u, p) \<in> set (abort_listeners (sigs s ! g)) \<and>
          s' = abort g s)"
  shows "listeners (procs s' ! c) = [] \<and> kills (procs s ! c) < kills (procs s' ! c) \<and>
         childProcess (units s' ! u) = Some c \<and> proms s' ! p \<noteq> Pending"
  using notif
proof (elim disjE conjE)
  assume "listeners (procs s ! c) = [OnError u p, OnClose u p]" "s' = emit_error c e s"
  then have "s' = handleError u p e s" by (simp add: emit_error_in_flight)
  then show ?thesis using c ch p cleanup_child [OF ch c]
    by (simp add: handleError_rejects)
next
  assume l: "listeners (procs s ! c) = [OnError u p, OnClose u p]" "s' = emit_close c code s"
  let ?t = "cleanup u s"
  have t: "listeners (procs ?t ! c) = []" "kills (procs ?t ! c) = Suc (kills (procs s ! c))"
    using cleanup_child [OF ch c] by simp_all
  show ?thesis
  proof (cases "code = Some 0")
    case True
    then have "s' = resolve p ?t" using l by (simp add: emit_close_in_flight onClose_success)
    then show ?thesis using t ch p by (simp add: resolve_pending)
  next
    case False
    then have s': "s' = handleError u p (exit_message code) ?t"
      using l by (simp add: emit_close_in_flight onClose_failure)
    have c': "c < length (procs ?t)" using c by simp
    from cleanup_mono [OF c', of u] t
    show ?thesis using ch p by (simp add: s' handleError_rejects)
  qed
next
  let ?t = "s\<lparr>sigs := (sigs s)[g := (sigs s ! g)\<lparr>aborted := True\<rparr>]\<rparr>"
  assume a: "\<not> aborted (sigs s ! g)" "(u, p) \<in> set (abort_listeners (sigs s ! g))"
    "s' = abort g s"
  then have s': "s' = abort_all ''AbortSignal triggered'' (abort_listeners (sigs s ! g)) ?t"
    by (simp add: abort_unfired)
  have "p \<in> snd ` set (abort_listeners (sigs s ! g))" using a(2) by force
  then have "proms s' ! p = Rejected ''AbortSignal triggered''"
    using p by (simp add: s' abort_all_rejects)
  moreover have "kills (procs ?t ! c) < kills (procs s' ! c) \<and> listeners (procs s' ! c) = []"
    unfolding s' by (rule abort_all_releases [OF _ a(2)]) (use c ch in simp_all)
  ultimately show ?thesis using ch by (simp add: s')
qed

text \<open>
  Claim C4 does not hold of the code. First, when \<^verbatim>\<open>run(signal)\<close> has succeeded, the
  listener of line 71 is still registered on the signal and \<^verbatim>\<open>_childProcess\<close> still holds
  the process; and after a \<^verbatim>\<open>'close'\<close> with code 1, \<^verbatim>\<open>cleanup\<close> has run twice (line 62
  and, through \<^verbatim>\<open>handleError\<close>, line 54). Second, \<^verbatim>\<open>cleanup\<close> releases the process that
  \<^verbatim>\<open>_childProcess\<close> refers to at that moment, which need not be the process of the
  execution being settled: in the state \<open>raced\<close> executions 1 and 2 are both pending and
  \<^verbatim>\<open>_childProcess\<close> holds process 2; when the signal settles execution 1, process 1 keeps
  both its listeners and is not killed, while process 2 loses its listeners and is
  killed, and the promise of execution 2 stays pending.
\<close>

theorem settlement_leaves_observers:
  "(proms succeeded_with_token ! 0 = Fulfilled \<and>
    abort_listeners (sigs succeeded_with_token ! 0) = [(0, 0)] \<and>
    childProcess (units succeeded_with_token ! 0) = Some 0) \<and>
   (proms (step (ProcClose 0 (Some 1)) running_with_token) ! 0 =
      Rejected ''Process exited with code 1'' \<and>
    kills (procs (step (ProcClose 0 (Some 1)) running_with_token) ! 0) = 2 \<and>
    abort_listeners (sigs (step (ProcClose 0 (Some 1)) running_with_token) ! 0) = [(0, 0)]) \<and>
   (proms raced = [Rejected ''Process exited with code 1'', Pending, Pending] \<and>
    childProcess (units raced ! 0) = Some 2 \<and>
    abort_listeners (sigs raced ! 0) = [(0, 1)] \<and>
    procs raced ! 1 = \<lparr>cmd = ''exit 1'', listeners = [OnError 0 1, OnClose 0 1], kills = 0\<rparr> \<and>
    procs raced ! 2 = \<lparr>cmd = ''exit 1'', listeners = [OnError 0 2, OnClose 0 2], kills = 0\<rparr> \<and>
    proms (step (Abort 0) raced) =
      [Rejected ''Process exited with code 1'', Rejected ''AbortSignal triggered'', Pending] \<and>
    procs (step (Abort 0) raced) ! 1 =
      \<lparr>cmd = ''exit 1'', listeners = [OnError 0 1, OnClose 0 1], kills = 0\<rparr> \<and>
    procs (step (Abort 0) raced) ! 2 = \<lparr>cmd = ''exit 1'', listeners = [], kills = 1\<rparr>)"
  by code_simp

section \<open>Suspended invocations\<close>

lemma waiters_snoc:
  "waiters p (cs @ [c]) = waiters p cs @ (if awaits p c then [length cs] else [])"
  by (simp add: waiters_def enumerate_append_eq)

lemma waiters_snoc2:
  "waiters p (cs @ [a, b]) =
     waiters p cs @ (if awaits p a then [length cs] else []) @
       (if awaits p b then [Suc (length cs)] else [])"
  using waiters_snoc [of p "cs @ [a]" b] by (simp add: waiters_snoc)

lemma waiters_none:
  "list_all (\<lambda>c. \<not> awaits p c) cs \<Longrightarrow> waiters p cs = []"
  by (induction cs rule: rev_induct) (simp_all add: waiters_snoc, simp add: waiters_def)

lemma wf_no_waiters:
  assumes "wf s"
  shows "waiters (length (proms s)) (calls s) = []"
proof (rule waiters_none)
  have "list_all (\<lambda>c. case c of Awaiting u sg q \<Rightarrow> u < length (units s) \<and> q < length (proms s)
                | _ \<Rightarrow> True) (calls s)"
    using assms by (simp add: wf_def refs_ok_def)
  then show "list_all (\<lambda>c. \<not> awaits (length (proms s)) c) (calls s)"
    by (auto simp: list_all_iff awaits_def split: call_state.splits)
qed

lemma drain_empty: "microtasks s = [] \<Longrightarrow> drain s = s"
  by (simp add: drain_def)

lemma drain_single: "microtasks s = [k] \<Longrightarrow> drain s = resume k (s\<lparr>microtasks := []\<rparr>)"
  by (simp add: drain_def tick_def)

lemma resume_fulfilled:
  "calls s ! k = Awaiting u sg q \<Longrightarrow> proms s ! q = Fulfilled \<Longrightarrow>
   memoizedResult (units s ! u) = Some r \<Longrightarrow>
   resume k s = s\<lparr>calls := (calls s)[k := Returned r]\<rparr>"
  by (simp add: resume_def run_tail_cached)

lemma run_idle_state:
  assumes "u < length (units s)" "memoizedResult (units s ! u) = None" "\<not> fired sg s"
    and "spawn_throws s (command (units s ! u)) = None"
  shows "units (run u sg s) =
           (units s)[u := (units s ! u)\<lparr>childProcess := Some (length (procs s)),
                                        memoizedResult := Some (length (proms s))\<rparr>]"
    and "procs (run u sg s) =
           procs s @ [\<lparr>cmd = command (units s ! u),
                        listeners = [OnError u (length (proms s)), OnClose u (length (proms s))],
                        kills = 0\<rparr>]"
    and "proms (run u sg s) = proms s @ [Pending]"
    and "calls (run u sg s) = calls s @ [Returned (length (proms s))]"
    and "microtasks (run u sg s) = microtasks s"
    and "aborted (sigs (run u sg s) ! g) = aborted (sigs s ! g)"
  using assms by (simp_all add: run_idle run_tail_idle)

section \<open>Concurrent calls\<close>

text \<open>
  When \<^verbatim>\<open>run\<close> is called (with no signal, or one that has not fired) on a unit whose
  slot holds a pending promise, the invocation is suspended on that very promise and
  nothing else changes; in particular no process is spawned. And for a unit whose slot is
  empty and whose command \<^verbatim>\<open>spawn\<close> accepts, in a state with no microtask queued: after
  two calls of \<^verbatim>\<open>run\<close> in a row the first has spawned one process and the second waits
  on the promise of the first; and when that process closes with code 0, still only that
  one process has been spawned and both invocations are fulfilled.
\<close>

lemma quiet_calls_converge:
  assumes wf: "wf s" and quiet: "microtasks s = []"
    and u: "u < length (units s)" and idle: "memoizedResult (units s ! u) = None"
    and sp: "spawn_throws s (command (units s ! u)) = None"
    and f1: "\<not> fired sg1 s" and f2: "\<not> fired sg2 s"
  shows "(\<forall>t v q sg. memoizedResult (units t ! v) = Some q \<and> proms t ! q = Pending \<and>
            \<not> fired sg t \<longrightarrow> run v sg t = t\<lparr>calls := calls t @ [Awaiting v sg q]\<rparr>) \<and>
         (let p = length (proms s); c = length (procs s);
              s1 = run u sg1 s; s2 = run u sg2 s1; s3 = step (ProcClose c (Some 0)) s2
          in memoizedResult (units s1 ! u) = Some p \<and> proms s1 ! p = Pending \<and>
             s2 = s1\<lparr>calls := calls s1 @ [Awaiting u sg2 p]\<rparr> \<and>
             length (procs s2) = Suc (length (procs s)) \<and>
             length (procs s3) = Suc (length (procs s)) \<and>
             outcome s3 (length (calls s)) = Fulfilled \<and>
             outcome s3 (Suc (length (calls s))) = Fulfilled)"
proof -
  let ?p = "length (proms s)" and ?c = "length (procs s)" and ?k = "length (calls s)"
  let ?sa = "run u sg1 s"
  let ?sb = "run u sg2 ?sa"
  have attach: "run v sg t = t\<lparr>calls := calls t @ [Awaiting v sg q]\<rparr>"
    if "memoizedResult (units t ! v) = Some q" "proms t ! q = Pending" "\<not> fired sg t"
    for t v q sg
    using that by (simp add: run_attach)
  note s1 = run_idle_state [OF u idle f1 sp]
  have memo1: "memoizedResult (units ?sa ! u) = Some ?p"
    and child1: "childProcess (units ?sa ! u) = Some ?c"
    using u by (simp_all add: s1)
  have pend1: "proms ?sa ! ?p = Pending" by (simp add: s1)
  have f2': "\<not> fired sg2 ?sa" using f2 by (simp add: fired_def s1 split: option.splits)
  have s2: "?sb = ?sa\<lparr>calls := calls ?sa @ [Awaiting u sg2 ?p]\<rparr>"
    by (rule attach [OF memo1 pend1 f2'])
  have u2: "units ?sb = units ?sa" and pr2: "procs ?sb = procs ?sa"
    and pm2: "proms ?sb = proms s @ [Pending]"
    and ca2: "calls ?sb = calls s @ [Returned ?p, Awaiting u sg2 ?p]"
    and q2: "microtasks ?sb = []"
    by (subst s2, simp add: s1 quiet)+
  have c2: "?c < length (procs ?sb)" by (simp add: pr2 s1)
  have l2: "listeners (procs ?sb ! ?c) = [OnError u ?p, OnClose u ?p]" by (simp add: pr2 s1)
  let ?t = "cleanup u ?sb"
  have em: "emit_close ?c (Some 0) ?sb = resolve ?p ?t"
    by (simp add: emit_close_in_flight [OF l2] onClose_success)
  have pt: "?p < length (proms ?t)" "proms ?t ! ?p = Pending" by (simp_all add: pm2)
  let ?r = "resolve ?p ?t"
  have w: "waiters ?p (calls s @ [Returned ?p, Awaiting u sg2 ?p]) = [Suc ?k]"
    by (simp add: waiters_snoc2 wf_no_waiters [OF wf] awaits_def)
  have r: "proms ?r = proms s @ [Fulfilled]" "microtasks ?r = [Suc ?k]"
    "units ?r = units ?sa" "calls ?r = calls s @ [Returned ?p, Awaiting u sg2 ?p]"
    "length (procs ?r) = Suc ?c"
    using resolve_pending [OF pt] by (simp_all add: w pm2 q2 u2 ca2 pr2 s1(2))
  let ?rq = "?r\<lparr>microtasks := []\<rparr>"
  have "resume (Suc ?k) ?rq = ?rq\<lparr>calls := (calls ?rq)[Suc ?k := Returned ?p]\<rparr>"
    by (rule resume_fulfilled [where u = u and sg = sg2 and q = ?p])
       (simp_all add: r ca2 u2 memo1 nth_append)
  then have d: "drain ?r = ?rq\<lparr>calls := (calls ?rq)[Suc ?k := Returned ?p]\<rparr>"
    by (simp add: drain_single [OF r(2)])
  have s3: "step (ProcClose ?c (Some 0)) ?sb = ?rq\<lparr>calls := (calls ?rq)[Suc ?k := Returned ?p]\<rparr>"
    using c2 by (simp add: drain_empty [OF q2] em d)
  have out: "outcome (step (ProcClose ?c (Some 0)) ?sb) ?k = Fulfilled"
    "outcome (step (ProcClose ?c (Some 0)) ?sb) (Suc ?k) = Fulfilled"
    "length (procs (step (ProcClose ?c (Some 0)) ?sb)) = Suc ?c"
    unfolding s3 by (simp_all add: outcome_def r ca2 pr2 s1(2) nth_append)
  have "length (procs ?sb) = Suc ?c" by (simp add: pr2 s1)
  with attach memo1 pend1 s2 out show ?thesis
    unfolding Let_def by blast
qed

text \<open>
  Claim C6 does not hold of the code. In the state \<open>queued_retry\<close> the slot is empty and
  the continuation of an earlier invocation, whose execution was cancelled, is queued.
  Two calls of \<^verbatim>\<open>run\<close> follow in a row: the first spawns process 1 and fills the slot with
  promise 1, the second finds that promise pending and waits on it. Then the queued
  continuation runs: its \<^verbatim>\<open>catch\<close> block empties the slot (line 45) and it starts an
  execution of its own, process 2 and promise 2. Process 1 closes with code 0:
  \<^verbatim>\<open>cleanup\<close> kills process 2 and detaches its listeners, and promise 1 is fulfilled. The
  first of the two callers is fulfilled. The second, which waited on promise 1, returns
  the promise that the slot holds now (line 76), promise 2, which no listener is left to
  settle: it does not receive the success.
\<close>

theorem attached_caller_misses_success:
  "(memoizedResult (units queued_retry ! 0) = None \<and> microtasks queued_retry = [1] \<and>
    length (procs queued_retry) = 1) \<and>
   (length (procs (exec [Run 0 None, Run 0 None] queued_retry)) = 2 \<and>
    memoizedResult (units (exec [Run 0 None, Run 0 None] queued_retry) ! 0) = Some 1 \<and>
    proms (exec [Run 0 None, Run 0 None] queued_retry) ! 1 = Pending \<and>
    calls (exec [Run 0 None, Run 0 None] queued_retry) ! 2 = Returned 1 \<and>
    calls (exec [Run 0 None, Run 0 None] queued_retry) ! 3 = Awaiting 0 None 1) \<and>
   (proms (exec [Run 0 None, Run 0 None, ProcClose 1 (Some 0)] queued_retry) =
      [Rejected ''AbortSignal triggered'', Fulfilled, Pending] \<and>
    outcome (exec [Run 0 None, Run 0 None, ProcClose 1 (Some 0)] queued_retry) 2 = Fulfilled \<and>
    calls (exec [Run 0 None, Run 0 None, ProcClose 1 (Some 0)] queued_retry) ! 3 = Returned 2 \<and>
    outcome (exec [Run 0 None, Run 0 None, ProcClose 1 (Some 0)] queued_retry) 3 = Pending \<and>
    length (procs (exec [Run 0 None, Run 0 None, ProcClose 1 (Some 0)] queued_retry)) = 3 \<and>
    listeners (procs (exec [Run 0 None, Run 0 None, ProcClose 1 (Some 0)] queued_retry) ! 2) = [] \<and>
    map abort_listeners (sigs (exec [Run 0 None, Run 0 None, ProcClose 1 (Some 0)] queued_retry)) =
      [[(0, 0)]])"
  by code_simp

lemma memoize_frame [simp]:
  "procs (memoize u s) = procs s" "proms (memoize u s) = proms s"
  "sigs (memoize u s) = sigs s" "calls (memoize u s) = calls s"
  "microtasks (memoize u s) = microtasks s"
  "length (units (memoize u s)) = Suc (length (units s))"
  "spawn_throws (memoize u s) = spawn_throws s"
  by (simp_all add: memoize_def)






section \<open>A snapshot taken while an execution is pending\<close>



section \<open>A cached success\<close>

text \<open>
  With a fulfilled promise in the slot, \<^verbatim>\<open>run\<close> (with no signal, or one that has not
  fired) awaits it, and its continuation, run on the state the call left, returns that
  promise: the invocation is fulfilled, no process is spawned and no unit changes.
\<close>

lemma cached_success_replayed:
  assumes memo: "memoizedResult (units s ! u) = Some q" and ok: "proms s ! q = Fulfilled"
    and nf: "\<not> fired sg s"
  shows "outcome (resume (length (calls s)) (run u sg s)) (length (calls s)) = Fulfilled"
    and "procs (resume (length (calls s)) (run u sg s)) = procs s"
    and "units (resume (length (calls s)) (run u sg s)) = units s"
proof -
  let ?k = "length (calls s)"
  let ?t = "s\<lparr>calls := calls s @ [Awaiting u sg q], microtasks := microtasks s @ [?k]\<rparr>"
  have t: "run u sg s = ?t" using ok by (simp add: run_attach [OF nf memo])
  have r: "resume ?k ?t = ?t\<lparr>calls := (calls ?t)[?k := Returned q]\<rparr>"
    by (rule resume_fulfilled [where u = u and sg = sg and q = q]) (simp_all add: ok memo)
  show "outcome (resume ?k (run u sg s)) ?k = Fulfilled"
    "procs (resume ?k (run u sg s)) = procs s"
    "units (resume ?k (run u sg s)) = units s"
    unfolding t r by (simp_all add: outcome_def ok)
qed

text \<open>
  Claim C1 does not hold of the code. \<^verbatim>\<open>run(signal)\<close> has succeeded and its promise is in
  the slot. The listener that line 71 registered on the signal is still there; when the
  signal fires it runs \<^verbatim>\<open>handleError\<close>, which empties the slot (line 55). The next call of
  \<^verbatim>\<open>run\<close>, with no signal, spawns a second process and is pending on it.
\<close>

theorem cached_success_evicted:
  "outcome succeeded_with_token 0 = Fulfilled \<and>
   memoizedResult (units succeeded_with_token ! 0) = Some 0 \<and>
   length (procs succeeded_with_token) = 1 \<and>
   memoizedResult (units (step (Abort 0) succeeded_with_token) ! 0) = None \<and>
   \<not> fired None (step (Abort 0) succeeded_with_token) \<and>
   length (procs (step (Run 0 None) (step (Abort 0) succeeded_with_token))) = 2 \<and>
   outcome (step (Run 0 None) (step (Abort 0) succeeded_with_token)) 1 = Pending"
  by code_simp

section \<open>A notification after settlement\<close>

text \<open>
  Claim C5 does not hold of the code. After the \<^verbatim>\<open>'close'\<close> with code 0 has settled the
  execution, the signal fires: the promise stays fulfilled, but \<^verbatim>\<open>cleanup\<close> runs once
  more on the process and the slot of the unit is emptied. And when the execution has
  failed with \<^verbatim>\<open>'error'\<close> and \<^verbatim>\<open>run\<close> has started a second execution, the signal of the
  first one, firing then, kills the process of the second one, detaches its listeners and
  empties the slot, so that the promise of the second execution stays pending.
\<close>

theorem late_abort_mutates_unit:
  "(proms succeeded_with_token ! 0 = Fulfilled \<and>
    kills (procs succeeded_with_token ! 0) = 1 \<and>
    memoizedResult (units succeeded_with_token ! 0) = Some 0 \<and>
    proms (step (Abort 0) succeeded_with_token) ! 0 = Fulfilled \<and>
    kills (procs (step (Abort 0) succeeded_with_token) ! 0) = 2 \<and>
    memoizedResult (units (step (Abort 0) succeeded_with_token) ! 0) = None) \<and>
   (proms (exec [ProcError 0 ''spawn ENOENT'', Run 0 None] running_with_token) =
      [Rejected ''spawn ENOENT'', Pending] \<and>
    memoizedResult
      (units (exec [ProcError 0 ''spawn ENOENT'', Run 0 None] running_with_token) ! 0) = Some 1 \<and>
    procs (exec [ProcError 0 ''spawn ENOENT'', Run 0 None] running_with_token) ! 1 =
      \<lparr>cmd = ''exit 1'', listeners = [OnError 0 1, OnClose 0 1], kills = 0\<rparr> \<and>
    proms (exec [ProcError 0 ''spawn ENOENT'', Run 0 None, Abort 0] running_with_token) =
      [Rejected ''spawn ENOENT'', Pending] \<and>
    memoizedResult
      (units (exec [ProcError 0 ''spawn ENOENT'', Run 0 None, Abort 0] running_with_token) ! 0) =
      None \<and>
    procs (exec [ProcError 0 ''spawn ENOENT'', Run 0 None, Abort 0] running_with_token) ! 1 =
      \<lparr>cmd = ''exit 1'', listeners = [], kills = 1\<rparr>)"
  by code_simp

section \<open>run without a signal\<close>

text \<open>
  Called without a signal, \<^verbatim>\<open>run\<close> does not throw at lines 37 to 39 and registers no
  abort listener, whichever branch it takes.
\<close>

lemma tokenless_never_throws:
  "calls (run u None s) ! length (calls s) \<noteq> Threw m"
  by (simp add: run_def fired_def run_tail_def executor_def Let_def split: option.split)

lemma tokenless_registers_no_listener:
  "sigs (run u None s) = sigs s"
  by (simp add: run_def fired_def run_tail_def executor_def executor_spawned_def
        set_memoizedResult_def Let_def split: option.split)

text \<open>
  Claim C10 does not hold of the code. The second invocation below is \<^verbatim>\<open>run()\<close>, with
  no signal. It awaits the fulfilled promise in the slot. Before its continuation runs,
  signal 0 fires, and the listener left on it by the first execution empties the slot;
  \<^verbatim>\<open>run\<close> called with signal 1 then starts a new execution. The continuation of the
  second invocation finds the slot filled and returns the promise in it (line 76), that
  of the execution bound to signal 1. Signal 1 fires, and the invocation made without a
  signal is rejected with \<^verbatim>\<open>AbortSignal triggered\<close>.
\<close>

theorem tokenless_call_cancelled:
  "calls (exec [NewSignal, Run 0 None] succeeded_with_token) ! 1 = Awaiting 0 None 0 \<and>
   outcome (exec [NewSignal, Run 0 None, Abort 0, Run 0 (Some 1), Tick] succeeded_with_token) 1 =
     Pending \<and>
   outcome (exec [NewSignal, Run 0 None, Abort 0, Run 0 (Some 1), Tick, Abort 1]
              succeeded_with_token) 1 =
     Rejected ''AbortSignal triggered''"
  by code_simp

section \<open>The host does not change\<close>

text \<open>No event changes what \<^verbatim>\<open>spawn\<close> does with a command.\<close>

lemma spawn_throws_run_tail [simp]:
  "spawn_throws (snd (run_tail u sg s)) = spawn_throws s"
  by (simp add: run_tail_def executor_def Let_def split: option.split)

lemma spawn_throws_run [simp]: "spawn_throws (run u sg s) = spawn_throws s"
  by (simp add: run_def split_def Let_def split: option.split)

lemma spawn_throws_resume [simp]: "spawn_throws (resume k s) = spawn_throws s"
  by (simp add: resume_def split_def Let_def split: call_state.split promise_state.split)

lemma spawn_throws_tick [simp]: "spawn_throws (tick s) = spawn_throws s"
  by (simp add: tick_def split: list.split)

lemma spawn_throws_ticks: "spawn_throws ((tick ^^ n) s) = spawn_throws s"
  by (induction n) simp_all

lemma spawn_throws_drain [simp]: "spawn_throws (drain s) = spawn_throws s"
  by (simp add: drain_def spawn_throws_ticks)

lemma spawn_throws_fold:
  assumes "\<And>l t. spawn_throws (f l t) = spawn_throws t"
  shows "spawn_throws (fold f ls s) = spawn_throws s"
  by (induction ls arbitrary: s) (simp_all add: assms)

lemma spawn_throws_emit [simp]:
  "spawn_throws (emit_error c err s) = spawn_throws s"
  "spawn_throws (emit_close c code s) = spawn_throws s"
  unfolding emit_error_def emit_close_def
  by (rule spawn_throws_fold; simp add: onClose_def Let_def resolve_def split: proc_listener.split)+

lemma spawn_throws_abort [simp]: "spawn_throws (abort g s) = spawn_throws s"
  by (simp add: abort_def)

lemma spawn_throws_step: "spawn_throws (step ev s) = spawn_throws s"
  by (cases ev) (simp_all add: new_unit_def new_signal_def memoize_def)

theorem spawn_throws_exec: "spawn_throws (exec evs s) = spawn_throws s"
  unfolding exec_def by (induction evs arbitrary: s) (simp_all add: spawn_throws_step)

end
